theory Spec2Isabelle
  imports Main
begin

section \<open>Teardown of a static site: S3 bucket and CloudFront distribution\<close>

text \<open>
  A shallow embedding of \<^verbatim>\<open>deployment-python/cleanup.py\<close>. The two AWS clients are the
  collaborators of the script; they are modelled as an environment \<open>env\<close> of response
  functions. Each response may depend on the whole history of calls made so far, and takes
  a latency, by which the clock advances. The script's own state is the \<open>world\<close>: the
  clock, the history of collaborator calls (each stamped with its completion time) and the
  lines still to be read from standard input.

  Conventions of the model:
  \<^item> \<^verbatim>\<open>time.time()\<close> reads the clock, counted in whole ticks (\<open>ticks_per_second\<close> ticks
    per second, \<open>seconds s\<close> ticks in \<open>s\<close> seconds); \<^verbatim>\<open>time.sleep(s)\<close> advances it
    by \<open>s\<close> seconds;
  \<^item> a collaborator call either returns or raises \<^verbatim>\<open>ClientError\<close> (\<open>Inl\<close>); the S3 waiter
    returns or raises \<^verbatim>\<open>WaiterError\<close>;
  \<^item> a paginator yields a finite sequence of pages, fixed when \<^verbatim>\<open>paginate\<close> is called;
    fetching a page may raise;
  \<^item> a key that may be missing from a response dictionary is an \<open>option\<close>;
  \<^item> logging and printing are not modelled.
\<close>

subsection \<open>Responses of the collaborators\<close>

datatype client_error = ClientError (error_code: string)

record origin =
  DomainName :: "string option"

text \<open>\<open>Origins\<close>: \<open>None\<close> when the key \<^verbatim>\<open>Origins\<close> is missing, \<open>Some None\<close> when
  \<^verbatim>\<open>Origins\<close> has no key \<^verbatim>\<open>Items\<close>.\<close>

record dist_config =
  Enabled :: bool
  Origins :: "origin list option option"

record config_response =
  DistributionConfig :: dist_config
  ETag :: string

text \<open>A page of \<^verbatim>\<open>list_distributions\<close>: the \<^verbatim>\<open>Id\<close>s of
  \<^verbatim>\<open>page["DistributionList"]["Items"]\<close>, with the same reading of the two options.\<close>

record dl_page =
  DistributionList :: "string list option option"

record object_version =
  Key :: string
  VersionId :: string

record ov_page =
  Versions :: "object_version list option"
  DeleteMarkers :: "object_version list option"

record delete_response =
  Errors :: "string list option"

subsection \<open>Calls, history and world\<close>

datatype event =
    GetBucketLocation string "client_error + string option"
  | ListDistributions "client_error + dl_page"
  | GetDistributionConfig string "client_error + config_response"
  | UpdateDistribution dist_config string string "client_error + string"
  | GetDistribution string "client_error + string"
  | DeleteDistribution string string "client_error + unit"
  | Sleep nat
  | GetBucketVersioning string "client_error + string option"
  | ListObjectVersions string "client_error + ov_page"
  | DeleteObjects string "object_version list" "client_error + delete_response"
  | DeleteBucket string "client_error + unit"
  | WaitBucketNotExists string bool

type_synonym history = "(nat \<times> event) list"

record world =
  now :: nat
  trace :: history
  stdin :: "string list"

text \<open>The collaborators. Every function takes the history first and returns the latency
  of the call with its response. \<open>update_distribution\<close> returns the \<^verbatim>\<open>ETag\<close> of its
  response, \<open>get_distribution\<close> the \<^verbatim>\<open>Status\<close>, \<open>get_bucket_location\<close> the
  \<^verbatim>\<open>LocationConstraint\<close>, \<open>get_bucket_versioning\<close> the \<^verbatim>\<open>Status\<close>;
  \<open>bucket_not_exists_wait\<close> is \<open>False\<close> when the waiter raises \<^verbatim>\<open>WaiterError\<close>.\<close>

record env =
  clients_available :: bool
  get_bucket_location :: "history \<Rightarrow> string \<Rightarrow> nat \<times> (client_error + string option)"
  list_distributions :: "history \<Rightarrow> (nat \<times> (client_error + dl_page)) list"
  get_distribution_config :: "history \<Rightarrow> string \<Rightarrow> nat \<times> (client_error + config_response)"
  update_distribution ::
    "history \<Rightarrow> dist_config \<Rightarrow> string \<Rightarrow> string \<Rightarrow> nat \<times> (client_error + string)"
  get_distribution :: "history \<Rightarrow> string \<Rightarrow> nat \<times> (client_error + string)"
  delete_distribution :: "history \<Rightarrow> string \<Rightarrow> string \<Rightarrow> nat \<times> (client_error + unit)"
  get_bucket_versioning :: "history \<Rightarrow> string \<Rightarrow> nat \<times> (client_error + string option)"
  list_object_versions :: "history \<Rightarrow> string \<Rightarrow> (nat \<times> (client_error + ov_page)) list"
  delete_objects ::
    "history \<Rightarrow> string \<Rightarrow> object_version list \<Rightarrow> nat \<times> (client_error + delete_response)"
  delete_bucket :: "history \<Rightarrow> string \<Rightarrow> nat \<times> (client_error + unit)"
  bucket_not_exists_wait :: "history \<Rightarrow> string \<Rightarrow> nat \<times> bool"

definition ticks_per_second :: nat where
  "ticks_per_second = 1000"

definition POLLING_INTERVAL_SECONDS :: nat where
  "POLLING_INTERVAL_SECONDS = 10"

definition CLOUDFRONT_TIMEOUT_SECONDS :: nat where
  "CLOUDFRONT_TIMEOUT_SECONDS = 600"

definition S3_DELETE_TIMEOUT_SECONDS :: nat where
  "S3_DELETE_TIMEOUT_SECONDS = 300"

text \<open>A call that took \<open>d\<close> ticks: the clock advances and the call joins the history.\<close>

definition record_call :: "nat \<Rightarrow> event \<Rightarrow> world \<Rightarrow> world" where
  "record_call d ev w = w\<lparr>now := now w + d, trace := trace w @ [(now w + d, ev)]\<rparr>"

definition seconds :: "nat \<Rightarrow> nat" where
  "seconds s = s * ticks_per_second"

definition sleep :: "nat \<Rightarrow> world \<Rightarrow> world" where
  "sleep s w = record_call (seconds s) (Sleep s) w"

text \<open>The calls of a run: what the history gained between two worlds.\<close>

definition events_since :: "world \<Rightarrow> world \<Rightarrow> event list" where
  "events_since w w' = map snd (drop (length (trace w)) (trace w'))"

text \<open>Leaving a loop body early: \<open>Return r\<close> is a \<^verbatim>\<open>return r\<close> of the enclosing
  function, \<open>Next a\<close> carries the loop variables on.\<close>

datatype ('r, 'a) flow = Return 'r | Next 'a

subsection \<open>\<^verbatim>\<open>get_s3_bucket_region\<close>\<close>


subsection \<open>\<^verbatim>\<open>find_cloudfront_for_s3_bucket\<close>\<close>

type_synonym found = "(string \<times> string) option \<times> int"

text \<open>The loop over the origins of one distribution. The state is
  \<open>(found_distribution, distribution_count)\<close>; the \<^verbatim>\<open>break\<close> after a first match
  ends the loop with the count raised.\<close>

fun scan_origins ::
  "string \<Rightarrow> string \<times> string \<Rightarrow> origin list \<Rightarrow> found \<Rightarrow> ((string \<times> string) option, found) flow"
where
  "scan_origins target de [] st = Next st"
| "scan_origins target de (orig # origs) (found_distribution, distribution_count) =
     (if DomainName orig = Some target then
        (if distribution_count = 0 then Next (Some de, distribution_count + 1)
         else Return None)
      else scan_origins target de origs (found_distribution, distribution_count))"

text \<open>The loop over the distributions of one page. A failed configuration fetch is
  skipped.\<close>

fun scan_distributions ::
  "env \<Rightarrow> string \<Rightarrow> string list \<Rightarrow> found \<Rightarrow> world
     \<Rightarrow> ((string \<times> string) option, found) flow \<times> world"
where
  "scan_distributions E target [] st w = (Next st, w)"
| "scan_distributions E target (dist_id # ids) st w =
     (let dr = get_distribution_config E (trace w) dist_id;
          w1 = record_call (fst dr) (GetDistributionConfig dist_id (snd dr)) w
      in case snd dr of
           Inl e \<Rightarrow> scan_distributions E target ids st w1
         | Inr config_response \<Rightarrow>
             (case Origins (DistributionConfig config_response) of
                Some (Some items) \<Rightarrow>
                  (case scan_origins target (dist_id, ETag config_response) items st of
                     Return x \<Rightarrow> (Return x, w1)
                   | Next st' \<Rightarrow> scan_distributions E target ids st' w1)
              | _ \<Rightarrow> scan_distributions E target ids st w1))"

text \<open>The loop over the pages. A page fetch that raises leaves the loop with the
  error, for the outer handler.\<close>

fun scan_pages ::
  "env \<Rightarrow> string \<Rightarrow> (nat \<times> (client_error + dl_page)) list \<Rightarrow> found \<Rightarrow> world
     \<Rightarrow> (client_error + ((string \<times> string) option, found) flow) \<times> world"
where
  "scan_pages E target [] st w = (Inr (Next st), w)"
| "scan_pages E target (p # ps) st w =
     (let w1 = record_call (fst p) (ListDistributions (snd p)) w
      in case snd p of
           Inl e \<Rightarrow> (Inl e, w1)
         | Inr page \<Rightarrow>
             (case DistributionList page of
                Some (Some ids) \<Rightarrow>
                  (case scan_distributions E target ids st w1 of
                     (Return x, w2) \<Rightarrow> (Inr (Return x), w2)
                   | (Next st', w2) \<Rightarrow> scan_pages E target ps st' w2)
              | _ \<Rightarrow> scan_pages E target ps st w1))"

definition target_origin_domain :: "string \<Rightarrow> string \<Rightarrow> string" where
  "target_origin_domain bucket_name region =
     bucket_name @ ''.s3-website-'' @ region @ ''.amazonaws.com''"

definition find_cloudfront_for_s3_bucket ::
  "env \<Rightarrow> string \<Rightarrow> string \<Rightarrow> world \<Rightarrow> (string \<times> string) option \<times> world"
where
  "find_cloudfront_for_s3_bucket E bucket_name region w =
     (case scan_pages E (target_origin_domain bucket_name region)
             (list_distributions E (trace w)) (None, 0) w of
        (Inl e, w') \<Rightarrow> (None, w')
      | (Inr (Return x), w') \<Rightarrow> (x, w')
      | (Inr (Next (found_distribution, distribution_count)), w') \<Rightarrow>
          (if distribution_count = 1 then found_distribution
           else if distribution_count = 0 then None
           else None, w'))"

subsection \<open>\<^verbatim>\<open>confirm_deletion\<close>\<close>







subsection \<open>\<^verbatim>\<open>delete_cloudfront_distribution\<close>\<close>

text \<open>The wait loop for disablement. \<open>Next ()\<close> is the \<^verbatim>\<open>break\<close> on status
  \<^verbatim>\<open>Deployed\<close>; the timeout and a failed status check return \<open>False\<close>.\<close>

function wait_for_disable ::
  "env \<Rightarrow> string \<Rightarrow> nat \<Rightarrow> world \<Rightarrow> (bool, unit) flow \<times> world"
where
  "wait_for_disable E distribution_id disable_start_time w =
     (let gr = get_distribution E (trace w) distribution_id;
          w1 = record_call (fst gr) (GetDistribution distribution_id (snd gr)) w
      in case snd gr of
           Inl e \<Rightarrow> (Return False, w1)
         | Inr current_status \<Rightarrow>
             (if current_status = ''Deployed'' then (Next (), w1)
              else if int (now w1) - int disable_start_time
                        > int (seconds CLOUDFRONT_TIMEOUT_SECONDS)
              then (Return False, w1)
              else wait_for_disable E distribution_id disable_start_time
                     (sleep POLLING_INTERVAL_SECONDS w1)))"
  by pat_completeness auto
termination
  by (relation "measure (\<lambda>(E, i, start, w).
        nat (int (seconds (CLOUDFRONT_TIMEOUT_SECONDS + POLLING_INTERVAL_SECONDS))
             + int start - int (now w)))")
     (auto simp: sleep_def seconds_def record_call_def CLOUDFRONT_TIMEOUT_SECONDS_def
        POLLING_INTERVAL_SECONDS_def ticks_per_second_def)

text \<open>The wait loop for deletion: a successful fetch means the distribution still
  exists.\<close>

function wait_for_delete :: "env \<Rightarrow> string \<Rightarrow> nat \<Rightarrow> world \<Rightarrow> bool \<times> world" where
  "wait_for_delete E distribution_id delete_start_time w =
     (let gr = get_distribution E (trace w) distribution_id;
          w1 = record_call (fst gr) (GetDistribution distribution_id (snd gr)) w
      in case snd gr of
           Inr still_there \<Rightarrow>
             (if int (now w1) - int delete_start_time
                   > int (seconds CLOUDFRONT_TIMEOUT_SECONDS)
              then (False, w1)
              else wait_for_delete E distribution_id delete_start_time
                     (sleep POLLING_INTERVAL_SECONDS w1))
         | Inl e \<Rightarrow>
             (if error_code e = ''NoSuchDistribution'' then (True, w1) else (False, w1)))"
  by pat_completeness auto
termination
  by (relation "measure (\<lambda>(E, i, start, w).
        nat (int (seconds (CLOUDFRONT_TIMEOUT_SECONDS + POLLING_INTERVAL_SECONDS))
             + int start - int (now w)))")
     (auto simp: sleep_def seconds_def record_call_def CLOUDFRONT_TIMEOUT_SECONDS_def
        POLLING_INTERVAL_SECONDS_def ticks_per_second_def)

text \<open>Step 1 of the \<^verbatim>\<open>try\<close> block, after the configuration fetch: \<open>Next latest_etag\<close>
  goes on to the deletion, \<open>Return\<close> leaves the function with a value or an error.\<close>

definition disable_distribution ::
  "env \<Rightarrow> string \<Rightarrow> config_response \<Rightarrow> world \<Rightarrow> (client_error + bool, string) flow \<times> world"
where
  "disable_distribution E distribution_id get_config_response w =
     (let dist_config = DistributionConfig get_config_response;
          current_etag = ETag get_config_response
      in if \<not> Enabled dist_config then (Next current_etag, w)
         else
           (let ur = update_distribution E (trace w) (dist_config\<lparr>Enabled := False\<rparr>)
                       distribution_id current_etag;
                w1 = record_call (fst ur)
                       (UpdateDistribution (dist_config\<lparr>Enabled := False\<rparr>)
                          distribution_id current_etag (snd ur)) w
            in case snd ur of
                 Inl e \<Rightarrow> (Return (Inl e), w1)
               | Inr latest_etag \<Rightarrow>
                   (case wait_for_disable E distribution_id (now w1) w1 of
                      (Return b, w2) \<Rightarrow> (Return (Inr b), w2)
                    | (Next u, w2) \<Rightarrow> (Next latest_etag, w2))))"

text \<open>Steps 2 and 3: the delete call and the wait for deletion.\<close>

definition delete_and_wait ::
  "env \<Rightarrow> string \<Rightarrow> string \<Rightarrow> world \<Rightarrow> (client_error + bool) \<times> world"
where
  "delete_and_wait E distribution_id latest_etag w =
     (let dr = delete_distribution E (trace w) distribution_id latest_etag;
          w1 = record_call (fst dr)
                 (DeleteDistribution distribution_id latest_etag (snd dr)) w
      in case snd dr of
           Inl e \<Rightarrow> (Inl e, w1)
         | Inr u \<Rightarrow>
             (case wait_for_delete E distribution_id (now w1) w1 of
                (b, w2) \<Rightarrow> (Inr b, w2)))"

text \<open>The body of the outer \<^verbatim>\<open>try\<close>. The \<open>etag\<close> passed in only initialises
  \<^verbatim>\<open>latest_etag\<close>, which the configuration fetch overwrites before any use.\<close>

definition delete_cloudfront_distribution_try ::
  "env \<Rightarrow> string \<Rightarrow> string \<Rightarrow> world \<Rightarrow> (client_error + bool) \<times> world"
where
  "delete_cloudfront_distribution_try E distribution_id etag w =
     (let cr = get_distribution_config E (trace w) distribution_id;
          w1 = record_call (fst cr) (GetDistributionConfig distribution_id (snd cr)) w
      in case snd cr of
           Inl e \<Rightarrow> (Inl e, w1)
         | Inr get_config_response \<Rightarrow>
             (case disable_distribution E distribution_id get_config_response w1 of
                (Return r, w2) \<Rightarrow> (r, w2)
              | (Next latest_etag, w2) \<Rightarrow>
                  delete_and_wait E distribution_id latest_etag w2))"

definition delete_cloudfront_distribution ::
  "env \<Rightarrow> string \<Rightarrow> string \<Rightarrow> world \<Rightarrow> bool \<times> world"
where
  "delete_cloudfront_distribution E distribution_id etag w =
     (case delete_cloudfront_distribution_try E distribution_id etag w of
        (Inr b, w') \<Rightarrow> (b, w')
      | (Inl e, w') \<Rightarrow>
          (if error_code e = ''NoSuchDistribution'' then True
           else if error_code e = ''DistributionNotDisabled'' then False
           else if error_code e = ''IllegalUpdate'' then False
           else if error_code e = ''InvalidIfMatchVersion'' then False
           else False, w'))"

subsection \<open>\<^verbatim>\<open>empty_s3_bucket\<close>\<close>

text \<open>\<^verbatim>\<open>"Errors" in delete_response and delete_response["Errors"]\<close>\<close>

definition has_errors :: "delete_response \<Rightarrow> bool" where
  "has_errors delete_response =
     (case Errors delete_response of None \<Rightarrow> False | Some errs \<Rightarrow> errs \<noteq> [])"

text \<open>The inner \<^verbatim>\<open>while len(objects_to_delete) >= 1000\<close> loop. \<open>Next\<close> carries the
  entries left over when the loop ends.\<close>

function delete_full_batches ::
  "env \<Rightarrow> string \<Rightarrow> nat \<Rightarrow> object_version list \<Rightarrow> world
     \<Rightarrow> (client_error + (bool, object_version list) flow) \<times> world"
where
  "delete_full_batches E bucket_name start_time objects_to_delete w =
     (if length objects_to_delete \<ge> 1000 then
        (let batch = take 1000 objects_to_delete;
             dr = delete_objects E (trace w) bucket_name batch;
             w1 = record_call (fst dr) (DeleteObjects bucket_name batch (snd dr)) w
         in case snd dr of
              Inl e \<Rightarrow> (Inl e, w1)
            | Inr delete_response \<Rightarrow>
                (if has_errors delete_response then (Inr (Return False), w1)
                 else if int (now w1) - int start_time
                           > int (seconds S3_DELETE_TIMEOUT_SECONDS)
                 then (Inr (Return False), w1)
                 else delete_full_batches E bucket_name start_time
                        (drop 1000 objects_to_delete) w1))
      else (Inr (Next objects_to_delete), w))"
  by pat_completeness auto
termination
  by (relation "measure (\<lambda>(E, b, start, objs, w). length objs)") auto

text \<open>\<^verbatim>\<open>page.get(k, [])\<close>\<close>

definition get_or_empty :: "'a list option \<Rightarrow> 'a list" where
  "get_or_empty v = (case v of None \<Rightarrow> [] | Some xs \<Rightarrow> xs)"

text \<open>The loop over the pages of \<^verbatim>\<open>list_object_versions\<close>.\<close>

fun empty_pages ::
  "env \<Rightarrow> string \<Rightarrow> nat \<Rightarrow> (nat \<times> (client_error + ov_page)) list \<Rightarrow> object_version list
     \<Rightarrow> world \<Rightarrow> (client_error + (bool, object_version list) flow) \<times> world"
where
  "empty_pages E bucket_name start_time [] objects_to_delete w =
     (Inr (Next objects_to_delete), w)"
| "empty_pages E bucket_name start_time (p # ps) objects_to_delete w =
     (let w1 = record_call (fst p) (ListObjectVersions bucket_name (snd p)) w
      in case snd p of
           Inl e \<Rightarrow> (Inl e, w1)
         | Inr page \<Rightarrow>
             (let versions = get_or_empty (Versions page);
                  delete_markers = get_or_empty (DeleteMarkers page)
              in if versions = [] \<and> delete_markers = []
                 then empty_pages E bucket_name start_time ps objects_to_delete w1
                 else
                   (case delete_full_batches E bucket_name start_time
                           (objects_to_delete @ versions @ delete_markers) w1 of
                      (Inl e, w2) \<Rightarrow> (Inl e, w2)
                    | (Inr (Return r), w2) \<Rightarrow> (Inr (Return r), w2)
                    | (Inr (Next objects_left), w2) \<Rightarrow>
                        empty_pages E bucket_name start_time ps objects_left w2)))"

text \<open>The final batch, after pagination.\<close>

definition delete_remaining ::
  "env \<Rightarrow> string \<Rightarrow> object_version list \<Rightarrow> world \<Rightarrow> (client_error + bool) \<times> world"
where
  "delete_remaining E bucket_name objects_to_delete w =
     (if objects_to_delete \<noteq> [] then
        (let dr = delete_objects E (trace w) bucket_name objects_to_delete;
             w1 = record_call (fst dr)
                    (DeleteObjects bucket_name objects_to_delete (snd dr)) w
         in case snd dr of
              Inl e \<Rightarrow> (Inl e, w1)
            | Inr delete_response \<Rightarrow>
                (if has_errors delete_response then (Inr False, w1) else (Inr True, w1)))
      else (Inr True, w))"

text \<open>The body of the \<^verbatim>\<open>try\<close>; \<open>start_time\<close> is read before it.\<close>

definition empty_s3_bucket_try ::
  "env \<Rightarrow> string \<Rightarrow> world \<Rightarrow> (client_error + bool) \<times> world"
where
  "empty_s3_bucket_try E bucket_name w =
     (let start_time = now w;
          vr = get_bucket_versioning E (trace w) bucket_name;
          w1 = record_call (fst vr) (GetBucketVersioning bucket_name (snd vr)) w
      in case snd vr of
           Inl e \<Rightarrow> (Inl e, w1)
         | Inr versioning \<Rightarrow>
             (case empty_pages E bucket_name start_time
                     (list_object_versions E (trace w1) bucket_name) [] w1 of
                (Inl e, w2) \<Rightarrow> (Inl e, w2)
              | (Inr (Return r), w2) \<Rightarrow> (Inr r, w2)
              | (Inr (Next objects_to_delete), w2) \<Rightarrow>
                  delete_remaining E bucket_name objects_to_delete w2))"

definition empty_s3_bucket :: "env \<Rightarrow> string \<Rightarrow> world \<Rightarrow> bool \<times> world" where
  "empty_s3_bucket E bucket_name w =
     (case empty_s3_bucket_try E bucket_name w of
        (Inr b, w') \<Rightarrow> (b, w')
      | (Inl e, w') \<Rightarrow> (if error_code e = ''NoSuchBucket'' then True else False, w'))"

subsection \<open>\<^verbatim>\<open>delete_s3_bucket\<close>\<close>

definition delete_s3_bucket :: "env \<Rightarrow> string \<Rightarrow> world \<Rightarrow> bool \<times> world" where
  "delete_s3_bucket E bucket_name w =
     (let dr = delete_bucket E (trace w) bucket_name;
          w1 = record_call (fst dr) (DeleteBucket bucket_name (snd dr)) w
      in case snd dr of
           Inl e \<Rightarrow> (if error_code e = ''NoSuchBucket'' then True else False, w1)
         | Inr u \<Rightarrow>
             (let wr = bucket_not_exists_wait E (trace w1) bucket_name;
                  w2 = record_call (fst wr) (WaitBucketNotExists bucket_name (snd wr)) w1
              in (snd wr, w2)))"

subsection \<open>\<^verbatim>\<open>main\<close>\<close>

text \<open>How the process ends: \<^verbatim>\<open>sys.exit(n)\<close>, the end of \<^verbatim>\<open>main\<close>, or the
  \<^verbatim>\<open>EOFError\<close> of an \<^verbatim>\<open>input()\<close> that nothing catches.\<close>

datatype outcome = SysExit nat | Completed | UncaughtEOFError

definition exit_code :: "outcome \<Rightarrow> nat" where
  "exit_code oc = (case oc of SysExit n \<Rightarrow> n | Completed \<Rightarrow> 0 | UncaughtEOFError \<Rightarrow> 1)"





subsection \<open>Runs and their calls\<close>

text \<open>The name of the operation behind a call.\<close>

datatype operation =
    OpGetBucketLocation | OpListDistributions | OpGetDistributionConfig
  | OpUpdateDistribution | OpGetDistribution | OpDeleteDistribution | OpSleep
  | OpGetBucketVersioning | OpListObjectVersions | OpDeleteObjects | OpDeleteBucket
  | OpWaitBucketNotExists

fun operation_of :: "event \<Rightarrow> operation" where
  "operation_of (GetBucketLocation b r) = OpGetBucketLocation"
| "operation_of (ListDistributions r) = OpListDistributions"
| "operation_of (GetDistributionConfig i r) = OpGetDistributionConfig"
| "operation_of (UpdateDistribution c i m r) = OpUpdateDistribution"
| "operation_of (GetDistribution i r) = OpGetDistribution"
| "operation_of (DeleteDistribution i m r) = OpDeleteDistribution"
| "operation_of (Sleep s) = OpSleep"
| "operation_of (GetBucketVersioning b r) = OpGetBucketVersioning"
| "operation_of (ListObjectVersions b r) = OpListObjectVersions"
| "operation_of (DeleteObjects b objs r) = OpDeleteObjects"
| "operation_of (DeleteBucket b r) = OpDeleteBucket"
| "operation_of (WaitBucketNotExists b r) = OpWaitBucketNotExists"

text \<open>The calls that change or remove a resource.\<close>

definition mutating :: "operation set" where
  "mutating = {OpUpdateDistribution, OpDeleteDistribution, OpDeleteObjects, OpDeleteBucket}"

text \<open>The calls of the CDN teardown proper.\<close>

definition cdn_teardown :: "operation set" where
  "cdn_teardown = {OpUpdateDistribution, OpGetDistribution, OpDeleteDistribution}"

text \<open>The calls of a run with their completion times.\<close>

definition timed_events_since :: "world \<Rightarrow> world \<Rightarrow> history" where
  "timed_events_since w w' = drop (length (trace w)) (trace w')"

text \<open>\<open>w'\<close> comes from \<open>w\<close> by calls of the operations \<open>K\<close> only, with the clock
  never set back.\<close>

definition extends_by :: "operation set \<Rightarrow> world \<Rightarrow> world \<Rightarrow> bool" where
  "extends_by K w w' \<longleftrightarrow>
     (\<exists>evs. trace w' = trace w @ evs \<and> (\<forall>te \<in> set evs. operation_of (snd te) \<in> K))"

subsection \<open>Runs of the CDN teardown\<close>

text \<open>The calls of a wait loop: status checks and sleeps.\<close>

definition polling :: "operation set" where
  "polling = {OpGetDistribution, OpSleep}"

text \<open>What the wait for disablement leaves behind: only status checks and sleeps; it goes
  on to the deletion only after a check that reported \<^verbatim>\<open>Deployed\<close>; otherwise it
  returns \<open>False\<close>, and then, unless a status check failed, more than the timeout has
  passed since \<open>start\<close>.\<close>

definition disable_wait_post ::
  "string \<Rightarrow> nat \<Rightarrow> (bool, unit) flow \<Rightarrow> world \<Rightarrow> history \<Rightarrow> bool" where
  "disable_wait_post i start fl w' evs \<longleftrightarrow>
     (\<forall>te \<in> set evs. operation_of (snd te) \<in> polling) \<and>
     (fl = Next () \<longrightarrow> (\<exists>t. (t, GetDistribution i (Inr ''Deployed'')) \<in> set evs)) \<and>
     (fl = Next () \<or> fl = Return False) \<and>
     (fl = Return False \<longrightarrow> (\<forall>t j e. (t, GetDistribution j (Inl e)) \<notin> set evs) \<longrightarrow>
        int (now w') - int start > int (seconds CLOUDFRONT_TIMEOUT_SECONDS))"

text \<open>The five shapes of a run of \<open>delete_cloudfront_distribution\<close>, by its result \<open>res\<close>,
  its final world \<open>w'\<close> and its calls with their completion times.\<close>

inductive cdn_run :: "string \<Rightarrow> bool \<Rightarrow> world \<Rightarrow> history \<Rightarrow> bool" where
  fetch_failed:
    "res = (error_code e = ''NoSuchDistribution'') \<Longrightarrow>
     cdn_run i res w' [(t0, GetDistributionConfig i (Inl e))]"
| already_disabled:
    "\<not> Enabled (DistributionConfig resp) \<Longrightarrow>
     \<forall>te \<in> set ps. operation_of (snd te) \<in> polling \<Longrightarrow>
     cdn_run i res w' ((t0, GetDistributionConfig i (Inr resp))
                       # (t1, DeleteDistribution i (ETag resp) dr) # ps)"
| update_failed:
    "Enabled (DistributionConfig resp) \<Longrightarrow>
     res = (error_code e = ''NoSuchDistribution'') \<Longrightarrow>
     cdn_run i res w' [(t0, GetDistributionConfig i (Inr resp)),
                       (t1, UpdateDistribution ((DistributionConfig resp)\<lparr>Enabled := False\<rparr>) i
                              (ETag resp) (Inl e))]"
| disable_wait_failed:
    "Enabled (DistributionConfig resp) \<Longrightarrow>
     \<forall>te \<in> set ps. operation_of (snd te) \<in> polling \<Longrightarrow>
     \<not> res \<Longrightarrow>
     (\<forall>t j e. (t, GetDistribution j (Inl e)) \<notin> set ps) \<longrightarrow>
        int (now w') - int t1 > int (seconds CLOUDFRONT_TIMEOUT_SECONDS) \<Longrightarrow>
     cdn_run i res w' ((t0, GetDistributionConfig i (Inr resp))
                       # (t1, UpdateDistribution ((DistributionConfig resp)\<lparr>Enabled := False\<rparr>) i
                                (ETag resp) (Inr tok)) # ps)"
| disabled_then_deleted:
    "Enabled (DistributionConfig resp) \<Longrightarrow>
     \<forall>te \<in> set ps. operation_of (snd te) \<in> polling \<Longrightarrow>
     (t, GetDistribution i (Inr ''Deployed'')) \<in> set ps \<Longrightarrow>
     \<forall>te \<in> set ps'. operation_of (snd te) \<in> polling \<Longrightarrow>
     cdn_run i res w' ((t0, GetDistributionConfig i (Inr resp))
                       # (t1, UpdateDistribution ((DistributionConfig resp)\<lparr>Enabled := False\<rparr>) i
                                (ETag resp) (Inr tok))
                       # ps @ (t2, DeleteDistribution i tok dr) # ps')"

text \<open>The token a mutating CDN call sends as \<^verbatim>\<open>IfMatch\<close> and the token a configuration
  fetch returns.\<close>

fun if_match :: "event \<Rightarrow> string option" where
  "if_match (UpdateDistribution c i m r) = Some m"
| "if_match (DeleteDistribution i m r) = Some m"
| "if_match e = None"

fun fetched_token :: "event \<Rightarrow> string option" where
  "fetched_token (GetDistributionConfig i (Inr r)) = Some (ETag r)"
| "fetched_token e = None"

definition is_cdn_mutation :: "event \<Rightarrow> bool" where
  "is_cdn_mutation e = (operation_of e \<in> {OpUpdateDistribution, OpDeleteDistribution})"

definition is_update :: "event \<Rightarrow> bool" where
  "is_update e = (operation_of e = OpUpdateDistribution)"

definition is_delete :: "event \<Rightarrow> bool" where
  "is_delete e = (operation_of e = OpDeleteDistribution)"

text \<open>\<open>reread_before P None calls\<close>: every call in \<open>calls\<close> that satisfies \<open>P\<close> comes
  immediately after a configuration fetch that returned the token the call sends.\<close>

fun reread_before :: "(event \<Rightarrow> bool) \<Rightarrow> event option \<Rightarrow> event list \<Rightarrow> bool" where
  "reread_before P prev [] = True"
| "reread_before P prev (e # es) =
     ((P e \<longrightarrow> (case prev of None \<Rightarrow> False
                  | Some p \<Rightarrow> fetched_token p \<noteq> None \<and> fetched_token p = if_match e))
      \<and> reread_before P (Some e) es)"

subsection \<open>Runs of the search for the distribution\<close>

text \<open>A fetched configuration matches when one of its origins has the target domain; a
  call is a match when it is a configuration fetch that returned a matching
  configuration.\<close>

definition config_matches :: "string \<Rightarrow> config_response \<Rightarrow> bool" where
  "config_matches target r =
     (case Origins (DistributionConfig r) of
        Some (Some items) \<Rightarrow> (\<exists>orig \<in> set items. DomainName orig = Some target)
      | _ \<Rightarrow> False)"

fun is_match :: "string \<Rightarrow> event \<Rightarrow> bool" where
  "is_match target (GetDistributionConfig i (Inr r)) = config_matches target r"
| "is_match target e = False"

definition matches_in :: "string \<Rightarrow> event list \<Rightarrow> int" where
  "matches_in target es = int (length (filter (is_match target) es))"

text \<open>A page fetch that raised.\<close>

fun list_failed :: "event \<Rightarrow> bool" where
  "list_failed (ListDistributions (Inl e)) = True"
| "list_failed e = False"




text \<open>What the loop over the distributions of a page leaves behind, started with the
  count \<open>c\<close>: configuration fetches only; when the loop ends normally the count has grown
  by the matches seen and is at most one; when it returns, it returns \<open>None\<close> right after
  the second match.\<close>

definition scan_post ::
  "string \<Rightarrow> int \<Rightarrow> ((string \<times> string) option, found) flow \<Rightarrow> event list \<Rightarrow> bool" where
  "scan_post target c fl es \<longleftrightarrow>
     (\<forall>e \<in> set es. operation_of e = OpGetDistributionConfig) \<and>
     (case fl of
        Next st \<Rightarrow> snd st = c + matches_in target es \<and> snd st \<le> 1
      | Return x \<Rightarrow> x = None \<and> c + matches_in target es = 2 \<and> es \<noteq> [] \<and>
                     is_match target (last es))"

definition pages_post ::
  "string \<Rightarrow> int \<Rightarrow> client_error + ((string \<times> string) option, found) flow \<Rightarrow> event list \<Rightarrow> bool"
where
  "pages_post target c res es \<longleftrightarrow>
     (\<forall>e \<in> set es. operation_of e \<in> {OpListDistributions, OpGetDistributionConfig}) \<and>
     (case res of
        Inl err \<Rightarrow> c + matches_in target es \<le> 1 \<and> (\<exists>e \<in> set es. list_failed e)
      | Inr fl \<Rightarrow>
          (\<forall>e \<in> set es. \<not> list_failed e) \<and>
          (case fl of
             Next st \<Rightarrow> snd st = c + matches_in target es \<and> snd st \<le> 1
           | Return x \<Rightarrow> x = None \<and> c + matches_in target es = 2 \<and> es \<noteq> [] \<and>
                          is_match target (last es)))"

subsection \<open>Runs of the bucket emptier\<close>

text \<open>The specification's batches: a list cut into chunks of \<open>n\<close>, the last one
  shorter when the length is no multiple of \<open>n\<close>.\<close>

function chunks :: "nat \<Rightarrow> 'a list \<Rightarrow> 'a list list" where
  "chunks n xs = (if n = 0 \<or> xs = [] then [] else take n xs # chunks n (drop n xs))"
  by pat_completeness auto
termination
  by (relation "measure (\<lambda>(n, xs). length xs)") auto

declare chunks.simps [simp del]

text \<open>The batches a run sent to \<^verbatim>\<open>delete_objects\<close>, in order; the keys of a page, versions
  first; the keys of all pages in the order of discovery; and the pages that
  \<open>empty_s3_bucket\<close> iterates over, listed after its versioning query.\<close>

fun deleted_batch :: "event \<Rightarrow> object_version list option" where
  "deleted_batch (DeleteObjects b batch r) = Some batch"
| "deleted_batch e = None"

fun batches_of :: "event list \<Rightarrow> object_version list list" where
  "batches_of [] = []"
| "batches_of (e # es) =
     (case deleted_batch e of Some batch \<Rightarrow> batch # batches_of es | None \<Rightarrow> batches_of es)"

definition page_keys :: "nat \<times> (client_error + ov_page) \<Rightarrow> object_version list" where
  "page_keys p =
     (case snd p of
        Inr page \<Rightarrow> get_or_empty (Versions page) @ get_or_empty (DeleteMarkers page)
      | Inl e \<Rightarrow> [])"

definition discovered :: "(nat \<times> (client_error + ov_page)) list \<Rightarrow> object_version list" where
  "discovered pages = concat (map page_keys pages)"

definition listed_pages :: "env \<Rightarrow> string \<Rightarrow> world \<Rightarrow> (nat \<times> (client_error + ov_page)) list" where
  "listed_pages E b w =
     (let vr = get_bucket_versioning E (trace w) b
      in list_object_versions E
           (trace (record_call (fst vr) (GetBucketVersioning b (snd vr)) w)) b)"

text \<open>A bulk delete of a full batch of 1000 that returned later than the time budget
  after \<open>start\<close>.\<close>

fun late_full :: "nat \<Rightarrow> nat \<times> event \<Rightarrow> bool" where
  "late_full start (t, DeleteObjects b batch (Inr resp)) =
     (length batch = 1000 \<and> int t - int start > int (seconds S3_DELETE_TIMEOUT_SECONDS))"
| "late_full start te = False"

text \<open>What the emptier's loops leave behind, for the entries \<open>input\<close> they had to
  handle: when a loop ends normally, the batches sent so far are full and, with the
  entries left over (fewer than 1000), make up the input in order, and no full batch
  returned late; a loop returns only \<open>False\<close>; when a call raised, no full batch had
  returned late.\<close>

definition loop_post ::
  "nat \<Rightarrow> object_version list \<Rightarrow> client_error + (bool, object_version list) flow
     \<Rightarrow> history \<Rightarrow> bool"
where
  "loop_post start input res evs \<longleftrightarrow>
     (\<forall>te \<in> set evs. operation_of (snd te) \<in> {OpListObjectVersions, OpDeleteObjects}) \<and>
     (case res of
        Inr fl \<Rightarrow>
          (case fl of
             Next rest \<Rightarrow>
               concat (batches_of (map snd evs)) @ rest = input \<and>
               (\<forall>batch \<in> set (batches_of (map snd evs)). length batch = 1000) \<and>
               length rest < 1000 \<and> (\<forall>te \<in> set evs. \<not> late_full start te)
           | Return r \<Rightarrow> \<not> r)
      | Inl err \<Rightarrow> (\<forall>te \<in> set evs. \<not> late_full start te))"

definition emptying :: "operation set" where
  "emptying = {OpGetBucketVersioning, OpListObjectVersions, OpDeleteObjects}"

subsection \<open>The order of the emptier's steps\<close>

text \<open>The steps the specification orders: the fetch of a page, and the bulk delete of a
  batch. \<open>steps_of\<close> reads them off the calls of a run.\<close>

datatype step = Fetch | Delete "object_version list"

fun step_of :: "event \<Rightarrow> step list" where
  "step_of (ListObjectVersions b r) = [Fetch]"
| "step_of (DeleteObjects b batch r) = [Delete batch]"
| "step_of e = []"

definition steps_of :: "event list \<Rightarrow> step list" where
  "steps_of es = concat (map step_of es)"







text \<open>A call of the emptier that failed: it raised, or it is a bulk delete whose response
  lists \<^verbatim>\<open>Errors\<close>. A call stops the emptier when it failed or is a full batch that
  returned later than the time budget.\<close>

fun call_failed :: "event \<Rightarrow> bool" where
  "call_failed (GetBucketVersioning b r) = isl r"
| "call_failed (ListObjectVersions b r) = isl r"
| "call_failed (DeleteObjects b batch r) =
     (case r of Inl e \<Rightarrow> True | Inr resp \<Rightarrow> has_errors resp)"
| "call_failed e = False"

definition stopped :: "nat \<Rightarrow> nat \<times> event \<Rightarrow> bool" where
  "stopped start te = (call_failed (snd te) \<or> late_full start te)"


definition follows :: "nat \<Rightarrow> step list \<Rightarrow> bool \<Rightarrow> history \<Rightarrow> bool" where
  "follows start pl completed evs \<longleftrightarrow>
     (if completed
      then steps_of (map snd evs) = pl \<and> (\<forall>te \<in> set evs. \<not> stopped start te)
      else (\<exists>rest. pl = steps_of (map snd evs) @ rest) \<and> (\<exists>te \<in> set evs. stopped start te))"

subsection \<open>Example collaborators\<close>

text \<open>A site \<^verbatim>\<open>site-abc\<close> in \<^verbatim>\<open>us-east-1\<close> behind one enabled distribution \<^verbatim>\<open>D1\<close>.
  The distribution reports \<^verbatim>\<open>InProgress\<close> on the first status check and \<^verbatim>\<open>Deployed\<close>
  afterwards, and is gone once its deletion has been requested. The bucket holds one
  object version. Every call takes one second.\<close>

definition site_origin :: origin where
  "site_origin = \<lparr>DomainName = Some ''site-abc.s3-website-us-east-1.amazonaws.com''\<rparr>"

definition count_calls :: "operation \<Rightarrow> history \<Rightarrow> nat" where
  "count_calls k h = length (filter (\<lambda>te. operation_of (snd te) = k) h)"

definition demo_env :: env where
  "demo_env =
     \<lparr>clients_available = True,
      get_bucket_location = (\<lambda>h b. (1000, Inr None)),
      list_distributions = (\<lambda>h. [(1000, Inr \<lparr>DistributionList = Some (Some [''D1''])\<rparr>)]),
      get_distribution_config =
        (\<lambda>h i. (1000, Inr \<lparr>DistributionConfig =
                             \<lparr>Enabled = True, Origins = Some (Some [site_origin])\<rparr>,
                           ETag = ''E1''\<rparr>)),
      update_distribution = (\<lambda>h c i m. (1000, Inr ''E2'')),
      get_distribution =
        (\<lambda>h i. (1000,
           if count_calls OpDeleteDistribution h > 0
           then Inl (ClientError ''NoSuchDistribution'')
           else if count_calls OpGetDistribution h = 0 then Inr ''InProgress''
           else Inr ''Deployed'')),
      delete_distribution = (\<lambda>h i m. (1000, Inr ())),
      get_bucket_versioning = (\<lambda>h b. (1000, Inr None)),
      list_object_versions =
        (\<lambda>h b. [(1000, Inr \<lparr>Versions = Some [\<lparr>Key = ''index.html'', VersionId = ''null''\<rparr>],
                              DeleteMarkers = None\<rparr>)]),
      delete_objects = (\<lambda>h b objs. (1000, Inr \<lparr>Errors = None\<rparr>)),
      delete_bucket = (\<lambda>h b. (1000, Inr ())),
      bucket_not_exists_wait = (\<lambda>h b. (15000, True))\<rparr>"

text \<open>A fresh process whose operator types the bucket name and then the given answer.\<close>

definition start_world :: "string list \<Rightarrow> world" where
  "start_world lines = \<lparr>now = 0, trace = [], stdin = lines\<rparr>"

text \<open>The same account after a complete teardown: the bucket is gone.\<close>

definition absent_env :: env where
  "absent_env =
     demo_env\<lparr>get_bucket_versioning := (\<lambda>h b. (1000, Inl (ClientError ''NoSuchBucket''))),
               delete_bucket := (\<lambda>h b. (1000, Inl (ClientError ''NoSuchBucket'')))\<rparr>"

text \<open>A distribution that never finishes deploying, each status check taking 200
  seconds.\<close>

definition stuck_env :: env where
  "stuck_env = demo_env\<lparr>get_distribution := (\<lambda>h i. (200000, Inr ''InProgress''))\<rparr>"


text \<open>A distribution that a previous run has already disabled.\<close>

definition disabled_env :: env where
  "disabled_env =
     demo_env\<lparr>get_distribution_config :=
        (\<lambda>h i. (1000, Inr \<lparr>DistributionConfig =
                             \<lparr>Enabled = False, Origins = Some (Some [site_origin])\<rparr>,
                           ETag = ''E7''\<rparr>))\<rparr>"



definition demo_config :: config_response where
  "demo_config = \<lparr>DistributionConfig = \<lparr>Enabled = True, Origins = Some (Some [site_origin])\<rparr>,
                   ETag = ''E1''\<rparr>"

text \<open>A bucket of 2500 entries on three pages, the second one empty; a bucket whose bulk
  delete takes 400 seconds; and that bucket with exactly 1000 entries.\<close>

definition some_key :: object_version where
  "some_key = \<lparr>Key = ''index.html'', VersionId = ''null''\<rparr>"


definition slow_delete_env :: env where
  "slow_delete_env = demo_env\<lparr>delete_objects := (\<lambda>h b objs. (400000, Inr \<lparr>Errors = None\<rparr>))\<rparr>"

definition slow_full_env :: env where
  "slow_full_env =
     slow_delete_env\<lparr>list_object_versions :=
        (\<lambda>h b. [(1000, Inr \<lparr>Versions = Some (replicate 1000 some_key),
                            DeleteMarkers = None\<rparr>)])\<rparr>"


section \<open>Properties\<close>

subsection \<open>Histories\<close>

lemma trace_record_call: "trace (record_call d ev w) = trace w @ [(now w + d, ev)]"
  by (simp add: record_call_def)

lemma now_record_call: "now (record_call d ev w) = now w + d"
  by (simp add: record_call_def)

lemma stdin_record_call: "stdin (record_call d ev w) = stdin w"
  by (simp add: record_call_def)

lemma extends_by_refl: "extends_by K w w"
  by (simp add: extends_by_def)

lemma extends_by_trans:
  "extends_by K w w1 \<Longrightarrow> extends_by K w1 w2 \<Longrightarrow> extends_by K w w2"
  by (auto simp: extends_by_def)

lemma extends_by_mono: "extends_by K w w' \<Longrightarrow> K \<subseteq> K' \<Longrightarrow> extends_by K' w w'"
  by (auto simp: extends_by_def)

lemma extends_by_record_call:
  "operation_of ev \<in> K \<Longrightarrow> extends_by K w (record_call d ev w)"
  by (simp add: extends_by_def trace_record_call)

lemma extends_by_step:
  "operation_of ev \<in> K \<Longrightarrow> extends_by K (record_call d ev w) w' \<Longrightarrow> extends_by K w w'"
  by (rule extends_by_trans[OF extends_by_record_call])

lemma extends_by_events:
  "extends_by K w w' \<Longrightarrow> e \<in> set (events_since w w') \<Longrightarrow> operation_of e \<in> K"
  by (auto simp: extends_by_def events_since_def)

lemma events_since_record_call: "events_since w (record_call d ev w) = [ev]"
  by (simp add: events_since_def trace_record_call)

lemma events_since_self: "events_since w w = []"
  by (simp add: events_since_def)

lemma events_since_append:
  "extends_by K w w1 \<Longrightarrow> extends_by K' w1 w2 \<Longrightarrow>
   events_since w w2 = events_since w w1 @ events_since w1 w2"
  by (auto simp: extends_by_def events_since_def)

declare wait_for_disable.simps [simp del]
declare wait_for_delete.simps [simp del]
declare delete_full_batches.simps [simp del]

lemma trace_sleep: "trace (sleep s w) = trace w @ [(now w + seconds s, Sleep s)]"
  by (simp add: sleep_def trace_record_call)

lemma now_sleep: "now (sleep s w) = now w + seconds s"
  by (simp add: sleep_def now_record_call)

subsection \<open>The CDN teardown\<close>

lemma disable_wait_post_step:
  "disable_wait_post i start fl w' evs \<Longrightarrow> st \<noteq> ''Deployed'' \<Longrightarrow>
   disable_wait_post i start fl w' ((t1, GetDistribution i (Inr st)) # (t2, Sleep s) # evs)"
proof -
  assume p: "disable_wait_post i start fl w' evs" and st: "st \<noteq> ''Deployed''"
  let ?evs = "(t1, GetDistribution i (Inr st)) # (t2, Sleep s) # evs"
  have a: "\<forall>te \<in> set ?evs. operation_of (snd te) \<in> polling"
    using p by (simp add: disable_wait_post_def polling_def)
  have b: "fl = Next () \<longrightarrow> (\<exists>t. (t, GetDistribution i (Inr ''Deployed'')) \<in> set ?evs)"
    using p by (simp add: disable_wait_post_def) blast
  have c: "fl = Next () \<or> fl = Return False"
    using p by (simp add: disable_wait_post_def)
  have d: "fl = Return False \<longrightarrow> (\<forall>t j e. (t, GetDistribution j (Inl e)) \<notin> set ?evs) \<longrightarrow>
        int (now w') - int start > int (seconds CLOUDFRONT_TIMEOUT_SECONDS)"
    using p by (simp add: disable_wait_post_def)
  from a b c d show ?thesis
    unfolding disable_wait_post_def by blast
qed

lemma wait_for_disable_run:
  "wait_for_disable E i start w = (fl, w') \<Longrightarrow>
   \<exists>evs. trace w' = trace w @ evs \<and> disable_wait_post i start fl w' evs"
proof (induction E i start w arbitrary: fl w' rule: wait_for_disable.induct)
  case (1 E i start w)
  let ?gr = "get_distribution E (trace w) i"
  let ?w1 = "record_call (fst ?gr) (GetDistribution i (snd ?gr)) w"
  let ?late = "int (now ?w1) - int start > int (seconds CLOUDFRONT_TIMEOUT_SECONDS)"
  note unfold = wait_for_disable.simps[of E i start w]
  show ?case
  proof (cases "snd ?gr")
    case (Inl e)
    with "1.prems" have "fl = Return False" "w' = ?w1"
      by (simp_all add: unfold Let_def)
    then have "trace w' = trace w @ [(now w + fst ?gr, GetDistribution i (snd ?gr))]"
      "disable_wait_post i start fl w' [(now w + fst ?gr, GetDistribution i (snd ?gr))]"
      using Inl by (simp_all add: trace_record_call disable_wait_post_def polling_def)
    then show ?thesis by blast
  next
    case (Inr st)
    consider (deployed) "st = ''Deployed''" | (late) "st \<noteq> ''Deployed''" ?late
      | (wait) "st \<noteq> ''Deployed''" "\<not> ?late" by blast
    then show ?thesis
    proof cases
      case deployed
      with Inr "1.prems" have "fl = Next ()" "w' = ?w1"
        by (simp_all add: unfold Let_def)
      then have "trace w' = trace w @ [(now w + fst ?gr, GetDistribution i (snd ?gr))]"
        "disable_wait_post i start fl w' [(now w + fst ?gr, GetDistribution i (snd ?gr))]"
        using Inr deployed by (simp_all add: trace_record_call disable_wait_post_def polling_def)
      then show ?thesis by blast
    next
      case late
      with Inr "1.prems" have "fl = Return False" "w' = ?w1"
        by (simp_all add: unfold Let_def)
      then have "trace w' = trace w @ [(now w + fst ?gr, GetDistribution i (snd ?gr))]"
        "disable_wait_post i start fl w' [(now w + fst ?gr, GetDistribution i (snd ?gr))]"
        using Inr late by (simp_all add: trace_record_call disable_wait_post_def polling_def)
      then show ?thesis by blast
    next
      case wait
      let ?w2 = "sleep POLLING_INTERVAL_SECONDS ?w1"
      from wait Inr "1.prems" have rec: "wait_for_disable E i start ?w2 = (fl, w')"
        by (simp add: unfold Let_def)
      from "1.IH"[OF refl refl Inr wait rec]
      obtain evs where evs: "trace w' = trace ?w2 @ evs" "disable_wait_post i start fl w' evs"
        by blast
      let ?evs = "(now w + fst ?gr, GetDistribution i (Inr st))
               # (now ?w1 + seconds POLLING_INTERVAL_SECONDS, Sleep POLLING_INTERVAL_SECONDS) # evs"
      have "trace w' = trace w @ ?evs"
        using evs(1) Inr by (simp add: trace_sleep trace_record_call)
      moreover have "disable_wait_post i start fl w' ?evs"
        using evs(2) wait(1) by (rule disable_wait_post_step)
      ultimately show ?thesis by blast
    qed
  qed
qed

lemma wait_for_delete_run:
  "wait_for_delete E i start w = (b, w') \<Longrightarrow>
   \<exists>evs. trace w' = trace w @ evs \<and> (\<forall>te \<in> set evs. operation_of (snd te) \<in> polling)"
proof (induction E i start w arbitrary: b w' rule: wait_for_delete.induct)
  case (1 E i start w)
  let ?gr = "get_distribution E (trace w) i"
  let ?w1 = "record_call (fst ?gr) (GetDistribution i (snd ?gr)) w"
  let ?late = "int (now ?w1) - int start > int (seconds CLOUDFRONT_TIMEOUT_SECONDS)"
  note unfold = wait_for_delete.simps[of E i start w]
  have one: "trace ?w1 = trace w @ [(now w + fst ?gr, GetDistribution i (snd ?gr))]"
    by (simp add: trace_record_call)
  show ?case
  proof (cases "snd ?gr")
    case (Inl e)
    with "1.prems" have "w' = ?w1"
      by (simp add: unfold Let_def split: if_splits)
    with one show ?thesis by (simp add: polling_def)
  next
    case (Inr st)
    show ?thesis
    proof (cases ?late)
      case True
      with Inr "1.prems" have "w' = ?w1"
        by (simp add: unfold Let_def)
      with one show ?thesis by (simp add: polling_def)
    next
      case False
      let ?w2 = "sleep POLLING_INTERVAL_SECONDS ?w1"
      from False Inr "1.prems" have rec: "wait_for_delete E i start ?w2 = (b, w')"
        by (simp add: unfold Let_def)
      from "1.IH"[OF refl refl Inr False rec]
      obtain evs where evs: "trace w' = trace ?w2 @ evs"
        "\<forall>te \<in> set evs. operation_of (snd te) \<in> polling"
        by blast
      let ?evs = "(now w + fst ?gr, GetDistribution i (snd ?gr))
               # (now ?w1 + seconds POLLING_INTERVAL_SECONDS, Sleep POLLING_INTERVAL_SECONDS) # evs"
      have "trace w' = trace w @ ?evs"
        using evs(1) by (simp add: trace_sleep trace_record_call)
      moreover have "\<forall>te \<in> set ?evs. operation_of (snd te) \<in> polling"
        using evs(2) by (simp add: polling_def)
      ultimately show ?thesis by blast
    qed
  qed
qed

lemma delete_and_wait_run:
  assumes "delete_and_wait E i tok w = (r, w')"
  shows "\<exists>t dr ps. trace w' = trace w @ (t, DeleteDistribution i tok dr) # ps \<and>
           (\<forall>te \<in> set ps. operation_of (snd te) \<in> polling)"
proof -
  let ?dr = "delete_distribution E (trace w) i tok"
  let ?w1 = "record_call (fst ?dr) (DeleteDistribution i tok (snd ?dr)) w"
  have one: "trace ?w1 = trace w @ [(now w + fst ?dr, DeleteDistribution i tok (snd ?dr))]"
    by (simp add: trace_record_call)
  show ?thesis
  proof (cases "snd ?dr")
    case (Inl e)
    with assms have "w' = ?w1" by (simp add: delete_and_wait_def Let_def)
    with one have "trace w' = trace w @ (now w + fst ?dr, DeleteDistribution i tok (snd ?dr)) # []"
      by simp
    then show ?thesis by (metis empty_iff list.set(1))
  next
    case (Inr u)
    with assms obtain b where b: "wait_for_delete E i (now ?w1) ?w1 = (b, w')"
      by (auto simp: delete_and_wait_def Let_def split: prod.splits)
    from wait_for_delete_run[OF b] obtain ps where
      ps: "trace w' = trace ?w1 @ ps" "\<forall>te \<in> set ps. operation_of (snd te) \<in> polling"
      by blast
    from ps(1) one have "trace w' = trace w @ (now w + fst ?dr, DeleteDistribution i tok (snd ?dr)) # ps"
      by simp
    with ps(2) show ?thesis by blast
  qed
qed

lemma cloudfront_handler:
  "(if c = ''NoSuchDistribution'' then True
    else if c = ''DistributionNotDisabled'' then False
    else if c = ''IllegalUpdate'' then False
    else if c = ''InvalidIfMatchVersion'' then False
    else False) = (c = ''NoSuchDistribution'')"
  by simp

lemma delete_cloudfront_distribution_run:
  assumes run: "delete_cloudfront_distribution E i etag w = (res, w')"
  shows "\<exists>evs. trace w' = trace w @ evs \<and> cdn_run i res w' evs \<and>
           hd evs = (now w + fst (get_distribution_config E (trace w) i),
                     GetDistributionConfig i (snd (get_distribution_config E (trace w) i)))"
proof -
  let ?cr = "get_distribution_config E (trace w) i"
  let ?w1 = "record_call (fst ?cr) (GetDistributionConfig i (snd ?cr)) w"
  let ?t0 = "now w + fst ?cr"
  have one: "trace ?w1 = trace w @ [(?t0, GetDistributionConfig i (snd ?cr))]"
    by (simp add: trace_record_call)
  show ?thesis
  proof (cases "snd ?cr")
    case (Inl e)
    with run have "w' = ?w1" "res = (error_code e = ''NoSuchDistribution'')"
      by (auto simp: delete_cloudfront_distribution_def delete_cloudfront_distribution_try_def
            Let_def cloudfront_handler)
    with one Inl have "trace w' = trace w @ [(?t0, GetDistributionConfig i (Inl e))] \<and>
      cdn_run i res w' [(?t0, GetDistributionConfig i (Inl e))]"
      by (simp add: cdn_run.fetch_failed)
    moreover have "hd [(?t0, GetDistributionConfig i (Inl e))]
                     = (?t0, GetDistributionConfig i (snd ?cr))"
      using Inl by simp
    ultimately show ?thesis by blast
  next
    case (Inr resp)
    let ?cfg = "DistributionConfig resp"
    show ?thesis
    proof (cases "Enabled ?cfg")
      case False
      with run Inr obtain r where r: "delete_and_wait E i (ETag resp) ?w1 = (r, w')"
        by (auto simp: delete_cloudfront_distribution_def delete_cloudfront_distribution_try_def
              disable_distribution_def Let_def split: prod.splits sum.splits)
      from delete_and_wait_run[OF r] obtain t dr ps where
        ps: "trace w' = trace ?w1 @ (t, DeleteDistribution i (ETag resp) dr) # ps"
        "\<forall>te \<in> set ps. operation_of (snd te) \<in> polling" by blast
      let ?evs = "(?t0, GetDistributionConfig i (Inr resp))
                  # (t, DeleteDistribution i (ETag resp) dr) # ps"
      have "trace w' = trace w @ ?evs" using ps(1) one Inr by simp
      moreover have "cdn_run i res w' ?evs"
        using False ps(2) by (rule cdn_run.already_disabled)
      moreover have "hd ?evs = (?t0, GetDistributionConfig i (snd ?cr))"
        using Inr by simp
      ultimately show ?thesis by blast
    next
      case True
      let ?cfg' = "?cfg\<lparr>Enabled := False\<rparr>"
      let ?ur = "update_distribution E (trace ?w1) ?cfg' i (ETag resp)"
      let ?w2 = "record_call (fst ?ur) (UpdateDistribution ?cfg' i (ETag resp) (snd ?ur)) ?w1"
      let ?t1 = "now ?w1 + fst ?ur"
      have two: "trace ?w2 = trace w @ [(?t0, GetDistributionConfig i (Inr resp)),
                   (?t1, UpdateDistribution ?cfg' i (ETag resp) (snd ?ur))]"
        using Inr by (simp add: trace_record_call)
      have now2: "now ?w2 = ?t1" by (simp add: now_record_call)
      show ?thesis
      proof (cases "snd ?ur")
        case (Inl e)
        with run Inr True have "w' = ?w2" "res = (error_code e = ''NoSuchDistribution'')"
          by (auto simp: delete_cloudfront_distribution_def delete_cloudfront_distribution_try_def
                disable_distribution_def Let_def cloudfront_handler)
        with two Inl have "trace w' = trace w @ [(?t0, GetDistributionConfig i (Inr resp)),
                   (?t1, UpdateDistribution ?cfg' i (ETag resp) (Inl e))]"
          by simp
        moreover have "cdn_run i res w' [(?t0, GetDistributionConfig i (Inr resp)),
                   (?t1, UpdateDistribution ?cfg' i (ETag resp) (Inl e))]"
          using True \<open>res = (error_code e = ''NoSuchDistribution'')\<close>
          by (rule cdn_run.update_failed)
        moreover have "hd [(?t0, GetDistributionConfig i (Inr resp)),
                   (?t1, UpdateDistribution ?cfg' i (ETag resp) (Inl e))]
                 = (?t0, GetDistributionConfig i (snd ?cr))"
          using \<open>snd ?cr = Inr resp\<close> by simp
        ultimately show ?thesis by blast
      next
        case (Inr tok)
        obtain fl w3 where wd: "wait_for_disable E i (now ?w2) ?w2 = (fl, w3)"
          by (cases "wait_for_disable E i (now ?w2) ?w2") blast
        from wait_for_disable_run[OF wd] obtain ps where
          ps: "trace w3 = trace ?w2 @ ps" "disable_wait_post i (now ?w2) fl w3 ps" by blast
        have polls: "\<forall>te \<in> set ps. operation_of (snd te) \<in> polling"
          using ps(2) by (simp add: disable_wait_post_def)
        have fl_cases: "fl = Next () \<or> fl = Return False"
          using ps(2) by (simp add: disable_wait_post_def)
        then show ?thesis
        proof
          assume fl: "fl = Return False"
          with run \<open>snd ?cr = Inr resp\<close> True Inr wd have "w' = w3" "\<not> res"
            by (auto simp: delete_cloudfront_distribution_def
                  delete_cloudfront_distribution_try_def disable_distribution_def Let_def)
          let ?evs = "(?t0, GetDistributionConfig i (Inr resp))
                   # (?t1, UpdateDistribution ?cfg' i (ETag resp) (Inr tok)) # ps"
          have "trace w' = trace w @ ?evs"
            using ps(1) two Inr \<open>w' = w3\<close> by simp
          moreover have "(\<forall>t j e. (t, GetDistribution j (Inl e)) \<notin> set ps) \<longrightarrow>
              int (now w') - int ?t1 > int (seconds CLOUDFRONT_TIMEOUT_SECONDS)"
            using ps(2) fl \<open>w' = w3\<close> now2 by (simp add: disable_wait_post_def)
          then have "cdn_run i res w' ?evs"
            using True polls \<open>\<not> res\<close> by (intro cdn_run.disable_wait_failed)
          moreover have "hd ?evs = (?t0, GetDistributionConfig i (snd ?cr))"
            using \<open>snd ?cr = Inr resp\<close> by simp
          ultimately show ?thesis by blast
        next
          assume fl: "fl = Next ()"
          with run \<open>snd ?cr = Inr resp\<close> True Inr wd
          obtain r where r: "delete_and_wait E i tok w3 = (r, w')"
            by (auto simp: delete_cloudfront_distribution_def
                  delete_cloudfront_distribution_try_def disable_distribution_def Let_def
                split: prod.splits sum.splits)
          from delete_and_wait_run[OF r] obtain t dr ps' where
            ps': "trace w' = trace w3 @ (t, DeleteDistribution i tok dr) # ps'"
            "\<forall>te \<in> set ps'. operation_of (snd te) \<in> polling" by blast
          obtain td where dep: "(td, GetDistribution i (Inr ''Deployed'')) \<in> set ps"
            using ps(2) fl by (auto simp add: disable_wait_post_def)
          let ?evs = "(?t0, GetDistributionConfig i (Inr resp))
                   # (?t1, UpdateDistribution ?cfg' i (ETag resp) (Inr tok))
                   # ps @ (t, DeleteDistribution i tok dr) # ps'"
          have "trace w' = trace w @ ?evs"
            using ps(1) ps'(1) two Inr by simp
          moreover have "cdn_run i res w' ?evs"
            using True polls dep ps'(2) by (rule cdn_run.disabled_then_deleted)
          moreover have "hd ?evs = (?t0, GetDistributionConfig i (snd ?cr))"
            using \<open>snd ?cr = Inr resp\<close> by simp
          ultimately show ?thesis by blast
        qed
      qed
    qed
  qed
qed

lemma polling_not_mutation:
  "\<forall>te \<in> set ps. operation_of (snd te) \<in> polling \<Longrightarrow>
   \<forall>e \<in> set (map snd ps). \<not> is_delete e \<and> \<not> is_update e"
  by (auto simp: polling_def is_delete_def is_update_def)

text \<open>Where a call stands in a list of calls.\<close>

lemma not_in_split: "\<forall>x \<in> set xs. \<not> Q x \<Longrightarrow> Q e \<Longrightarrow> xs \<noteq> pre @ e # post"
  by auto

lemma split_unique:
  assumes eq: "xs @ d # ys = pre @ e # post"
    and e: "Q e" and xs: "\<forall>x \<in> set xs. \<not> Q x" and ys: "\<forall>y \<in> set ys. \<not> Q y"
  shows "pre = xs \<and> e = d \<and> post = ys"
  using eq e xs ys
  by (auto simp: append_eq_append_conv2 append_eq_Cons_conv Cons_eq_append_conv)

text \<open>The example runs, evaluated.\<close>

lemmas cdn_eval =
  delete_cloudfront_distribution_def delete_cloudfront_distribution_try_def
  disable_distribution_def delete_and_wait_def wait_for_disable.simps wait_for_delete.simps
  record_call_def sleep_def seconds_def ticks_per_second_def Let_def
  CLOUDFRONT_TIMEOUT_SECONDS_def POLLING_INTERVAL_SECONDS_def count_calls_def
  start_world_def demo_env_def

lemma demo_cdn_run:
  "delete_cloudfront_distribution demo_env ''D1'' ''E1'' (start_world []) =
     (True, \<lparr>now = 16000,
             trace = [(1000, GetDistributionConfig ''D1''
                        (Inr \<lparr>DistributionConfig =
                                \<lparr>Enabled = True, Origins = Some (Some [site_origin])\<rparr>,
                              ETag = ''E1''\<rparr>)),
                      (2000, UpdateDistribution
                        \<lparr>Enabled = False, Origins = Some (Some [site_origin])\<rparr>
                        ''D1'' ''E1'' (Inr ''E2'')),
                      (3000, GetDistribution ''D1'' (Inr ''InProgress'')),
                      (13000, Sleep 10),
                      (14000, GetDistribution ''D1'' (Inr ''Deployed'')),
                      (15000, DeleteDistribution ''D1'' ''E2'' (Inr ())),
                      (16000, GetDistribution ''D1'' (Inl (ClientError ''NoSuchDistribution'')))],
             stdin = []\<rparr>)"
  by (simp add: cdn_eval stuck_env_def)



subsection \<open>The search for the distribution\<close>

lemma scan_origins_eq:
  "scan_origins target de items (f, c) =
     (if \<exists>orig \<in> set items. DomainName orig = Some target
      then (if c = 0 then Next (Some de, c + 1) else Return None)
      else Next (f, c))"
  by (induction items) auto

text \<open>One distribution: the step of the loop body on the state.\<close>

lemma scan_distributions_Cons:
  "scan_distributions E target (i # ids) (f, c) w =
     (let dr = get_distribution_config E (trace w) i;
          w1 = record_call (fst dr) (GetDistributionConfig i (snd dr)) w
      in if is_match target (GetDistributionConfig i (snd dr))
         then (if c = 0
               then scan_distributions E target ids
                      (Some (i, ETag (case snd dr of Inr r \<Rightarrow> r)), 1) w1
               else (Return None, w1))
         else scan_distributions E target ids (f, c) w1)"
  by (auto simp: Let_def scan_origins_eq config_matches_def
      split: sum.splits option.splits)

declare scan_distributions.simps(2) [simp del]






lemma matches_in_simps:
  "matches_in target [] = 0"
  "matches_in target (e # es) = (if is_match target e then 1 else 0) + matches_in target es"
  "matches_in target (es @ es') = matches_in target es + matches_in target es'"
  by (simp_all add: matches_in_def)

lemma matches_in_nonneg: "0 \<le> matches_in target es"
  by (simp add: matches_in_def)

lemma scan_post_skip:
  "scan_post target c fl es \<Longrightarrow> \<not> is_match target e \<Longrightarrow>
   operation_of e = OpGetDistributionConfig \<Longrightarrow> scan_post target c fl (e # es)"
  by (cases fl) (auto simp: scan_post_def matches_in_simps)

lemma scan_post_first:
  "scan_post target 1 fl es \<Longrightarrow> is_match target e \<Longrightarrow>
   operation_of e = OpGetDistributionConfig \<Longrightarrow> scan_post target 0 fl (e # es)"
  by (cases fl) (auto simp: scan_post_def matches_in_simps)

lemma scan_post_second:
  "is_match target e \<Longrightarrow> operation_of e = OpGetDistributionConfig \<Longrightarrow>
   scan_post target 1 (Return None) [e]"
  by (simp add: scan_post_def matches_in_simps)

lemma scan_distributions_run:
  "scan_distributions E target ids (f, c) w = (fl, w') \<Longrightarrow> c = 0 \<or> c = 1 \<Longrightarrow>
   \<exists>evs. trace w' = trace w @ evs \<and> scan_post target c fl (map snd evs)"
proof (induction ids arbitrary: f c w)
  case Nil
  then have "trace w' = trace w @ []" "scan_post target c fl (map snd [])"
    by (auto simp: scan_post_def matches_in_simps)
  then show ?case by blast
next
  case (Cons i ids)
  let ?dr = "get_distribution_config E (trace w) i"
  let ?ev = "GetDistributionConfig i (snd ?dr)"
  let ?w1 = "record_call (fst ?dr) ?ev w"
  have op: "operation_of ?ev = OpGetDistributionConfig" by simp
  have one: "trace ?w1 = trace w @ [(now w + fst ?dr, ?ev)]"
    by (simp add: trace_record_call)
  show ?case
  proof (cases "is_match target ?ev")
    case False
    with Cons.prems(1) have rec: "scan_distributions E target ids (f, c) ?w1 = (fl, w')"
      by (simp add: scan_distributions_Cons Let_def)
    from Cons.IH[OF rec Cons.prems(2)] obtain evs where
      evs: "trace w' = trace ?w1 @ evs" "scan_post target c fl (map snd evs)" by blast
    have "trace w' = trace w @ (now w + fst ?dr, ?ev) # evs" using evs(1) one by simp
    moreover have "scan_post target c fl (map snd ((now w + fst ?dr, ?ev) # evs))"
      using scan_post_skip[OF evs(2) False op] by simp
    ultimately show ?thesis by blast
  next
    case True
    show ?thesis
    proof (cases "c = 0")
      case c0: True
      with True Cons.prems(1) obtain f1 where
        rec: "scan_distributions E target ids (f1, 1) ?w1 = (fl, w')"
        by (simp add: scan_distributions_Cons Let_def)
      from Cons.IH[OF rec] obtain evs where
        evs: "trace w' = trace ?w1 @ evs" "scan_post target 1 fl (map snd evs)" by blast
      have "trace w' = trace w @ (now w + fst ?dr, ?ev) # evs" using evs(1) one by simp
      moreover have "scan_post target c fl (map snd ((now w + fst ?dr, ?ev) # evs))"
        using scan_post_first[OF evs(2) True op] c0 by simp
      ultimately show ?thesis by blast
    next
      case False
      with Cons.prems(2) have c1: "c = 1" by simp
      from False True Cons.prems(1) have "fl = Return None" "w' = ?w1"
        by (simp_all add: scan_distributions_Cons Let_def)
      then have "trace w' = trace w @ [(now w + fst ?dr, ?ev)]"
        "scan_post target c fl (map snd [(now w + fst ?dr, ?ev)])"
        using one c1 scan_post_second[OF True op] by simp_all
      then show ?thesis by blast
    qed
  qed
qed

lemma pages_post_failed:
  "c = 0 \<or> c = 1 \<Longrightarrow> pages_post target c (Inl err) [ListDistributions (Inl err)]"
  by (auto simp: pages_post_def matches_in_simps)

lemma pages_post_skip:
  "pages_post target c res es \<Longrightarrow> pages_post target c res (ListDistributions (Inr page) # es)"
  by (cases res; cases "projr res")
     (auto simp: pages_post_def matches_in_simps)

lemma scan_post_not_failed: "scan_post target c fl es \<Longrightarrow> \<forall>e \<in> set es. \<not> list_failed e"
proof
  fix e assume "scan_post target c fl es" "e \<in> set es"
  then have "operation_of e = OpGetDistributionConfig" by (simp add: scan_post_def)
  then show "\<not> list_failed e" by (cases e) auto
qed

lemma pages_post_Return:
  "scan_post target c (Return x) es \<Longrightarrow>
   pages_post target c (Inr (Return x)) (ListDistributions (Inr page) # es)"
  using scan_post_not_failed[of target c "Return x" es]
  by (auto simp: pages_post_def scan_post_def matches_in_simps)

lemma pages_post_append:
  assumes a: "scan_post target c (Next (f1, c1)) es1" and b: "pages_post target c1 res es2"
  shows "pages_post target c res (ListDistributions (Inr page) # es1 @ es2)"
proof -
  have c1: "c1 = c + matches_in target es1" using a by (simp add: scan_post_def)
  have ops1: "\<forall>e \<in> set es1. operation_of e = OpGetDistributionConfig"
    using a by (simp add: scan_post_def)
  have nf1: "\<forall>e \<in> set es1. \<not> list_failed e" using a by (rule scan_post_not_failed)
  have ops: "\<forall>e \<in> set (ListDistributions (Inr page) # es1 @ es2).
               operation_of e \<in> {OpListDistributions, OpGetDistributionConfig}"
    using ops1 b by (auto simp: pages_post_def)
  have m: "c + matches_in target (ListDistributions (Inr page) # es1 @ es2)
             = c1 + matches_in target es2"
    using c1 by (simp add: matches_in_simps)
  show ?thesis
  proof (cases res)
    case (Inl err)
    with b m ops show ?thesis by (auto simp: pages_post_def)
  next
    case (Inr fl)
    with b have nf2: "\<forall>e \<in> set es2. \<not> list_failed e" by (simp add: pages_post_def)
    have nf: "\<forall>e \<in> set (ListDistributions (Inr page) # es1 @ es2). \<not> list_failed e"
      using nf1 nf2 by auto
    show ?thesis
    proof (cases fl)
      case (Next st)
      with Inr b m ops nf show ?thesis by (simp add: pages_post_def)
    next
      case (Return x)
      with Inr b have "es2 \<noteq> []" "is_match target (last es2)" "x = None"
        "c1 + matches_in target es2 = 2"
        by (simp_all add: pages_post_def)
      with Inr Return m ops nf show ?thesis by (simp add: pages_post_def)
    qed
  qed
qed

lemma scan_pages_run:
  "scan_pages E target pages (f, c) w = (res, w') \<Longrightarrow> c = 0 \<or> c = 1 \<Longrightarrow>
   \<exists>evs. trace w' = trace w @ evs \<and> pages_post target c res (map snd evs)"
proof (induction pages arbitrary: f c w)
  case Nil
  then have "trace w' = trace w @ []" "pages_post target c res (map snd [])"
    by (auto simp: pages_post_def matches_in_simps)
  then show ?case by blast
next
  case (Cons p ps)
  let ?ev = "ListDistributions (snd p)"
  let ?w1 = "record_call (fst p) ?ev w"
  have one: "trace ?w1 = trace w @ [(now w + fst p, ?ev)]"
    by (simp add: trace_record_call)
  show ?case
  proof (cases "snd p")
    case (Inl err)
    with Cons.prems(1) have "res = Inl err" "w' = ?w1" by (simp_all add: Let_def)
    then have "trace w' = trace w @ [(now w + fst p, ?ev)]"
      "pages_post target c res (map snd [(now w + fst p, ?ev)])"
      using one Inl pages_post_failed[OF Cons.prems(2)] by simp_all
    then show ?thesis by blast
  next
    case (Inr page)
    show ?thesis
    proof (cases "\<exists>ids. DistributionList page = Some (Some ids)")
      case False
      with Inr Cons.prems(1) have rec: "scan_pages E target ps (f, c) ?w1 = (res, w')"
        by (auto simp: Let_def split: option.splits)
      from Cons.IH[OF rec Cons.prems(2)] obtain evs where
        evs: "trace w' = trace ?w1 @ evs" "pages_post target c res (map snd evs)" by blast
      have "trace w' = trace w @ (now w + fst p, ?ev) # evs" using evs(1) one by simp
      moreover have "pages_post target c res (map snd ((now w + fst p, ?ev) # evs))"
        using pages_post_skip[OF evs(2)] Inr by simp
      ultimately show ?thesis by blast
    next
      case True
      then obtain ids where ids: "DistributionList page = Some (Some ids)" by blast
      obtain fl w2 where sd: "scan_distributions E target ids (f, c) ?w1 = (fl, w2)"
        by (cases "scan_distributions E target ids (f, c) ?w1") blast
      from scan_distributions_run[OF sd Cons.prems(2)] obtain evs1 where
        evs1: "trace w2 = trace ?w1 @ evs1" "scan_post target c fl (map snd evs1)" by blast
      show ?thesis
      proof (cases fl)
        case (Return x)
        with Inr ids sd Cons.prems(1) have "res = Inr (Return x)" "w' = w2"
          by (simp_all add: Let_def)
        then have "trace w' = trace w @ (now w + fst p, ?ev) # evs1"
          "pages_post target c res (map snd ((now w + fst p, ?ev) # evs1))"
          using evs1 one Inr Return pages_post_Return[of target c x "map snd evs1" page]
          by simp_all
        then show ?thesis by blast
      next
        case (Next st)
        obtain f1 c1 where st: "st = (f1, c1)" by (cases st)
        with Next Inr ids sd Cons.prems(1)
        have rec: "scan_pages E target ps (f1, c1) w2 = (res, w')"
          by (simp add: Let_def)
        from evs1(2) Next st have c1: "c1 = c + matches_in target (map snd evs1)" "c1 \<le> 1"
          by (simp_all add: scan_post_def)
        with Cons.prems(2) matches_in_nonneg[of target "map snd evs1"]
        have "c1 = 0 \<or> c1 = 1" by linarith
        from Cons.IH[OF rec this] obtain evs2 where
          evs2: "trace w' = trace w2 @ evs2" "pages_post target c1 res (map snd evs2)" by blast
        have "trace w' = trace w @ (now w + fst p, ?ev) # evs1 @ evs2"
          using evs2(1) evs1(1) one by simp
        moreover have "pages_post target c res (map snd ((now w + fst p, ?ev) # evs1 @ evs2))"
          using pages_post_append[OF evs1(2)[unfolded Next st] evs2(2), of page] Inr by simp
        ultimately show ?thesis by blast
      qed
    qed
  qed
qed

text \<open>A run of the search: its calls, how many of them matched, and its result.\<close>

lemma find_run:
  assumes run: "find_cloudfront_for_s3_bucket E b rg w = (r, w')"
  shows "\<exists>evs. trace w' = trace w @ evs \<and>
           (\<forall>e \<in> set (map snd evs).
              operation_of e \<in> {OpListDistributions, OpGetDistributionConfig}) \<and>
           matches_in (target_origin_domain b rg) (map snd evs) \<le> 2 \<and>
           (matches_in (target_origin_domain b rg) (map snd evs) = 2 \<longrightarrow>
              r = None \<and> evs \<noteq> [] \<and> is_match (target_origin_domain b rg) (snd (last evs))) \<and>
           ((\<exists>e \<in> set (map snd evs). list_failed e) \<longrightarrow> r = None)"
proof -
  let ?t = "target_origin_domain b rg"
  obtain res w1 where sp: "scan_pages E ?t (list_distributions E (trace w)) (None, 0) w = (res, w1)"
    by (cases "scan_pages E ?t (list_distributions E (trace w)) (None, 0) w") blast
  from scan_pages_run[OF sp] obtain evs where
    evs: "trace w1 = trace w @ evs" "pages_post ?t 0 res (map snd evs)" by blast
  from sp run have w': "w' = w1"
    by (auto simp: find_cloudfront_for_s3_bucket_def split: sum.splits flow.splits prod.splits)
  have ops: "\<forall>e \<in> set (map snd evs).
              operation_of e \<in> {OpListDistributions, OpGetDistributionConfig}"
    using evs(2) by (simp add: pages_post_def)
  have rest: "matches_in ?t (map snd evs) \<le> 2 \<and>
           (matches_in ?t (map snd evs) = 2 \<longrightarrow>
              r = None \<and> evs \<noteq> [] \<and> is_match ?t (snd (last evs))) \<and>
           ((\<exists>e \<in> set (map snd evs). list_failed e) \<longrightarrow> r = None)"
  proof (cases res)
    case (Inl err)
    with sp run have "r = None" by (simp add: find_cloudfront_for_s3_bucket_def)
    moreover from Inl evs(2) have "matches_in ?t (map snd evs) \<le> 1"
      by (simp add: pages_post_def)
    ultimately show ?thesis by simp
  next
    case (Inr fl)
    with evs(2) have nf: "\<forall>e \<in> set (map snd evs). \<not> list_failed e"
      by (simp add: pages_post_def)
    show ?thesis
    proof (cases fl)
      case (Return x)
      with Inr evs(2) have x: "x = None" "matches_in ?t (map snd evs) = 2"
        "map snd evs \<noteq> []" "is_match ?t (last (map snd evs))"
        by (simp_all add: pages_post_def)
      from x(3) have "evs \<noteq> []" by simp
      with x(4) have "is_match ?t (snd (last evs))" by (simp add: last_map)
      moreover from Return Inr sp run x(1) have "r = None"
        by (simp add: find_cloudfront_for_s3_bucket_def)
      ultimately show ?thesis using x(2) nf \<open>evs \<noteq> []\<close> by simp
    next
      case (Next st)
      with Inr evs(2) have "matches_in ?t (map snd evs) \<le> 1"
        by (simp add: pages_post_def)
      with nf show ?thesis by simp
    qed
  qed
  from evs(1) w' ops rest show ?thesis by blast
qed





subsection \<open>The bucket emptier\<close>

lemma chunks_Nil: "chunks n [] = []"
  by (simp add: chunks.simps)

lemma chunks_short: "xs \<noteq> [] \<Longrightarrow> length xs < n \<Longrightarrow> chunks n xs = [xs]"
  by (subst chunks.simps) (simp add: chunks_Nil)

lemma chunks_full:
  "0 < n \<Longrightarrow> n \<le> length xs \<Longrightarrow> chunks n xs = take n xs # chunks n (drop n xs)"
  by (subst chunks.simps) auto

lemma chunks_concat_full:
  "0 < n \<Longrightarrow> \<forall>b \<in> set bs. length b = n \<Longrightarrow> chunks n (concat bs @ xs) = bs @ chunks n xs"
  by (induction bs) (simp_all add: chunks_full)


lemma batches_of_append: "batches_of (es @ es') = batches_of es @ batches_of es'"
  by (induction es) (simp_all split: option.splits)

lemma loop_post_step:
  assumes post: "loop_post start (drop 1000 objs) res evs"
    and len: "1000 \<le> length objs"
    and ontime: "\<not> int t - int start > int (seconds S3_DELETE_TIMEOUT_SECONDS)"
  shows "loop_post start objs res ((t, DeleteObjects b (take 1000 objs) (Inr resp)) # evs)"
proof (cases res)
  case (Inl err)
  with post ontime show ?thesis by (simp add: loop_post_def)
next
  case (Inr fl)
  show ?thesis
  proof (cases fl)
    case (Return r)
    with Inr post show ?thesis by (simp add: loop_post_def)
  next
    case (Next rest)
    with Inr post have "concat (batches_of (map snd evs)) @ rest = drop 1000 objs" 
      by (simp add: loop_post_def)
    then have "take 1000 objs @ concat (batches_of (map snd evs)) @ rest = objs" by simp
    with Next Inr post ontime len show ?thesis by (simp add: loop_post_def)
  qed
qed

lemma delete_full_batches_run:
  "delete_full_batches E b start objs w = (res, w') \<Longrightarrow>
   \<exists>evs. trace w' = trace w @ evs \<and> loop_post start objs res evs"
proof (induction E b start objs w arbitrary: res w' rule: delete_full_batches.induct)
  case (1 E b start objs w)
  note unfold = delete_full_batches.simps[of E b start objs w]
  show ?case
  proof (cases "1000 \<le> length objs")
    case False
    with "1.prems" have "res = Inr (Next objs)" "w' = w" by (simp_all add: unfold)
    with False have "trace w' = trace w @ []" "loop_post start objs res []"
      by (simp_all add: loop_post_def)
    then show ?thesis by blast
  next
    case True
    let ?batch = "take 1000 objs"
    let ?dr = "delete_objects E (trace w) b ?batch"
    let ?ev = "DeleteObjects b ?batch (snd ?dr)"
    let ?w1 = "record_call (fst ?dr) ?ev w"
    let ?late = "int (now ?w1) - int start > int (seconds S3_DELETE_TIMEOUT_SECONDS)"
    have one: "trace ?w1 = trace w @ [(now w + fst ?dr, ?ev)]" "now ?w1 = now w + fst ?dr"
      by (simp_all add: trace_record_call now_record_call)
    show ?thesis
    proof (cases "snd ?dr")
      case (Inl err)
      with True "1.prems" have "res = Inl err" "w' = ?w1" by (simp_all add: unfold Let_def)
      with one Inl have "trace w' = trace w @ [(now w + fst ?dr, ?ev)]"
        "loop_post start objs res [(now w + fst ?dr, ?ev)]"
        by (simp_all add: loop_post_def)
      then show ?thesis by blast
    next
      case (Inr resp)
      show ?thesis
      proof (cases "has_errors resp \<or> ?late")
        case stop: True
        with True Inr "1.prems" have "res = Inr (Return False)" "w' = ?w1"
          by (auto simp add: unfold Let_def split: if_splits)
        with one have "trace w' = trace w @ [(now w + fst ?dr, ?ev)]"
          "loop_post start objs res [(now w + fst ?dr, ?ev)]"
          by (simp_all add: loop_post_def)
        then show ?thesis by blast
      next
        case go: False
        with True Inr "1.prems"
        have rec: "delete_full_batches E b start (drop 1000 objs) ?w1 = (res, w')"
          by (simp add: unfold Let_def)
        from go have ne: "\<not> has_errors resp" and nl: "\<not> ?late" by simp_all
        from "1.IH"[OF True refl refl refl Inr ne nl rec] obtain evs where
          evs: "trace w' = trace ?w1 @ evs" "loop_post start (drop 1000 objs) res evs" by blast
        have "trace w' = trace w @ (now w + fst ?dr, ?ev) # evs" using evs(1) one by simp
        moreover have "loop_post start objs res ((now w + fst ?dr, ?ev) # evs)"
          using loop_post_step[OF evs(2) True, of "now w + fst ?dr" b resp] nl one(2) Inr
          by simp
        ultimately show ?thesis by blast
      qed
    qed
  qed
qed

lemma loop_post_list_failed:
  "loop_post start input (Inl err) [(t, ListObjectVersions b (Inl err'))]"
  by (simp add: loop_post_def)

lemma loop_post_skip_page:
  "loop_post start input res evs \<Longrightarrow>
   loop_post start input res ((t, ListObjectVersions b r) # evs)"
  by (cases res; cases "projr res") (auto simp: loop_post_def)

lemma loop_post_Return:
  "loop_post start input (Inr (Return r)) evs \<Longrightarrow>
   loop_post start input' (Inr (Return r)) ((t, ListObjectVersions b p) # evs)"
  by (simp add: loop_post_def)

lemma loop_post_Inl:
  "loop_post start input (Inl err) evs \<Longrightarrow>
   loop_post start input' (Inl err) ((t, ListObjectVersions b p) # evs)"
  by (simp add: loop_post_def)

lemma loop_post_append:
  assumes a: "loop_post start input1 (Inr (Next rest1)) evs1"
    and b: "loop_post start (rest1 @ extra) res evs2"
  shows "loop_post start (input1 @ extra) res ((t, ListObjectVersions bk p) # evs1 @ evs2)"
proof -
  have ops: "\<forall>te \<in> set ((t, ListObjectVersions bk p) # evs1 @ evs2).
               operation_of (snd te) \<in> {OpListObjectVersions, OpDeleteObjects}"
    using a b by (auto simp: loop_post_def)
  have a1: "concat (batches_of (map snd evs1)) @ rest1 = input1"
    and a2: "\<forall>batch \<in> set (batches_of (map snd evs1)). length batch = 1000"
    and a3: "\<forall>te \<in> set evs1. \<not> late_full start te"
    using a by (simp_all add: loop_post_def)
  have nl: "(\<forall>te \<in> set evs2. \<not> late_full start te) \<Longrightarrow>
            \<forall>te \<in> set ((t, ListObjectVersions bk p) # evs1 @ evs2). \<not> late_full start te"
    using a3 by auto
  show ?thesis
  proof (cases res)
    case (Inl err)
    with b ops nl show ?thesis by (simp add: loop_post_def)
  next
    case (Inr fl)
    show ?thesis
    proof (cases fl)
      case (Return r)
      with Inr b ops show ?thesis by (simp add: loop_post_def)
    next
      case (Next rest)
      with Inr b have b1: "concat (batches_of (map snd evs2)) @ rest = rest1 @ extra"
        and b2: "\<forall>batch \<in> set (batches_of (map snd evs2)). length batch = 1000"
        and b3: "length rest < 1000" and b4: "\<forall>te \<in> set evs2. \<not> late_full start te"
        by (simp_all add: loop_post_def)
      have "concat (batches_of (map snd ((t, ListObjectVersions bk p) # evs1 @ evs2))) @ rest
            = concat (batches_of (map snd evs1)) @ concat (batches_of (map snd evs2)) @ rest"
        by (simp add: batches_of_append)
      also have "\<dots> = input1 @ extra" using a1 b1 by (metis append.assoc)
      finally have c: "concat (batches_of (map snd ((t, ListObjectVersions bk p) # evs1 @ evs2)))
                         @ rest = input1 @ extra" .
      have d: "\<forall>batch \<in> set (batches_of (map snd ((t, ListObjectVersions bk p) # evs1 @ evs2))).
                 length batch = 1000"
        using a2 b2 by (auto simp: batches_of_append)
      from c d b3 nl[OF b4] ops Inr Next show ?thesis
        unfolding loop_post_def by simp
    qed
  qed
qed

lemma empty_pages_run:
  "empty_pages E b start pages objs w = (res, w') \<Longrightarrow> length objs < 1000 \<Longrightarrow>
   \<exists>evs. trace w' = trace w @ evs \<and> loop_post start (objs @ discovered pages) res evs"
proof (induction pages arbitrary: objs w)
  case Nil
  then have "trace w' = trace w @ []" "loop_post start (objs @ discovered []) res []"
    by (auto simp: loop_post_def discovered_def)
  then show ?case by blast
next
  case (Cons p ps)
  let ?ev = "ListObjectVersions b (snd p)"
  let ?w1 = "record_call (fst p) ?ev w"
  have one: "trace ?w1 = trace w @ [(now w + fst p, ?ev)]"
    by (simp add: trace_record_call)
  have disc: "discovered (p # ps) = page_keys p @ discovered ps"
    by (simp add: discovered_def)
  show ?case
  proof (cases "snd p")
    case (Inl err)
    with Cons.prems(1) have "res = Inl err" "w' = ?w1" by (simp_all add: Let_def)
    then have "trace w' = trace w @ [(now w + fst p, ?ev)]"
      "loop_post start (objs @ discovered (p # ps)) res [(now w + fst p, ?ev)]"
      using one Inl by (simp_all add: loop_post_list_failed)
    then show ?thesis by blast
  next
    case (Inr page)
    let ?keys = "get_or_empty (Versions page) @ get_or_empty (DeleteMarkers page)"
    have keys: "page_keys p = ?keys" using Inr by (simp add: page_keys_def)
    show ?thesis
    proof (cases "?keys = []")
      case True
      with Inr Cons.prems(1) have rec: "empty_pages E b start ps objs ?w1 = (res, w')"
        by (simp add: Let_def)
      from Cons.IH[OF rec Cons.prems(2)] obtain evs where
        evs: "trace w' = trace ?w1 @ evs" "loop_post start (objs @ discovered ps) res evs"
        by blast
      have "trace w' = trace w @ (now w + fst p, ?ev) # evs" using evs(1) one by simp
      moreover have "loop_post start (objs @ discovered (p # ps)) res ((now w + fst p, ?ev) # evs)"
        using loop_post_skip_page[OF evs(2)] disc keys True by simp
      ultimately show ?thesis by blast
    next
      case False
      obtain r1 w2 where dfb: "delete_full_batches E b start (objs @ ?keys) ?w1 = (r1, w2)"
        by (cases "delete_full_batches E b start (objs @ ?keys) ?w1") blast
      from delete_full_batches_run[OF dfb] obtain evs1 where
        evs1: "trace w2 = trace ?w1 @ evs1" "loop_post start (objs @ ?keys) r1 evs1" by blast
      have tr1: "trace w2 = trace w @ (now w + fst p, ?ev) # evs1" using evs1(1) one by simp
      show ?thesis
      proof (cases r1)
        case (Inl err)
        with Inr False dfb Cons.prems(1) have "res = Inl err" "w' = w2"
          by (auto simp: Let_def)
        with tr1 loop_post_Inl[OF evs1(2)[unfolded Inl]] show ?thesis by blast
      next
        case r1: (Inr fl)
        show ?thesis
        proof (cases fl)
          case (Return r)
          with r1 Inr False dfb Cons.prems(1) have "res = Inr (Return r)" "w' = w2"
            by (auto simp: Let_def)
          with tr1 loop_post_Return[OF evs1(2)[unfolded r1 Return]] show ?thesis by blast
        next
          case (Next rest1)
          with r1 Inr False dfb Cons.prems(1)
          have rec: "empty_pages E b start ps rest1 w2 = (res, w')"
            by (auto simp: Let_def)
          from evs1(2) r1 Next have "length rest1 < 1000" by (simp add: loop_post_def)
          from Cons.IH[OF rec this] obtain evs2 where
            evs2: "trace w' = trace w2 @ evs2"
            "loop_post start (rest1 @ discovered ps) res evs2" by blast
          have "trace w' = trace w @ (now w + fst p, ?ev) # evs1 @ evs2"
            using evs2(1) tr1 by simp
          moreover have "loop_post start (objs @ discovered (p # ps)) res
                           ((now w + fst p, ?ev) # evs1 @ evs2)"
            using loop_post_append[OF evs1(2)[unfolded r1 Next] evs2(2)] disc keys by simp
          ultimately show ?thesis by blast
        qed
      qed
    qed
  qed
qed

lemma late_full_short: "length batch < 1000 \<Longrightarrow> \<not> late_full start (t, DeleteObjects b batch r)"
  by (cases r) simp_all

lemma empty_s3_bucket_try_run:
  assumes run: "empty_s3_bucket_try E b w = (res, w')"
  shows "\<exists>evs. trace w' = trace w @ evs \<and>
           (\<forall>te \<in> set evs. operation_of (snd te) \<in> emptying) \<and>
           ((\<exists>te \<in> set evs. late_full (now w) te) \<longrightarrow> res = Inr False) \<and>
           (res = Inr True \<longrightarrow>
              batches_of (map snd evs) = chunks 1000 (discovered (listed_pages E b w)))"
proof -
  let ?vr = "get_bucket_versioning E (trace w) b"
  let ?vev = "GetBucketVersioning b (snd ?vr)"
  let ?w1 = "record_call (fst ?vr) ?vev w"
  let ?tv = "now w + fst ?vr"
  let ?pages = "list_object_versions E (trace ?w1) b"
  have pages: "listed_pages E b w = ?pages" by (simp add: listed_pages_def Let_def)
  have one: "trace ?w1 = trace w @ [(?tv, ?vev)]" by (simp add: trace_record_call)
  show ?thesis
  proof (cases "snd ?vr")
    case (Inl err)
    with run have "res = Inl err" "w' = ?w1" by (simp_all add: empty_s3_bucket_try_def Let_def)
    with one have "trace w' = trace w @ [(?tv, ?vev)]"
      "\<forall>te \<in> set [(?tv, ?vev)]. operation_of (snd te) \<in> emptying"
      "(\<exists>te \<in> set [(?tv, ?vev)]. late_full (now w) te) \<longrightarrow> res = Inr False"
      "res = Inr True \<longrightarrow> batches_of (map snd [(?tv, ?vev)])
          = chunks 1000 (discovered (listed_pages E b w))"
      by (simp_all add: emptying_def)
    then show ?thesis by blast
  next
    case (Inr versioning)
    obtain r1 w2 where ep: "empty_pages E b (now w) ?pages [] ?w1 = (r1, w2)"
      by (cases "empty_pages E b (now w) ?pages [] ?w1") blast
    from empty_pages_run[OF ep] obtain evs1 where
      evs1: "trace w2 = trace ?w1 @ evs1" "loop_post (now w) (discovered ?pages) r1 evs1"
      by auto
    have tr1: "trace w2 = trace w @ (?tv, ?vev) # evs1" using evs1(1) one by simp
    have ops1: "\<forall>te \<in> set ((?tv, ?vev) # evs1). operation_of (snd te) \<in> emptying"
      using evs1(2) by (auto simp: loop_post_def emptying_def)
    show ?thesis
    proof (cases r1)
      case (Inl err)
      with Inr ep run have "res = Inl err" "w' = w2"
        by (simp_all add: empty_s3_bucket_try_def Let_def)
      moreover from Inl evs1(2) have "\<forall>te \<in> set ((?tv, ?vev) # evs1). \<not> late_full (now w) te"
        by (simp add: loop_post_def)
      ultimately show ?thesis using tr1 ops1 by blast
    next
      case r1: (Inr fl)
      show ?thesis
      proof (cases fl)
        case (Return r)
        with r1 evs1(2) have "\<not> r" by (simp add: loop_post_def)
        with Return r1 Inr ep run have "res = Inr False" "w' = w2"
          by (simp_all add: empty_s3_bucket_try_def Let_def)
        with tr1 ops1 show ?thesis by blast
      next
        case (Next rest)
        with r1 evs1(2) have
          cat: "concat (batches_of (map snd evs1)) @ rest = discovered ?pages"
          and full: "\<forall>batch \<in> set (batches_of (map snd evs1)). length batch = 1000"
          and short: "length rest < 1000"
          and ontime: "\<forall>te \<in> set evs1. \<not> late_full (now w) te"
          by (simp_all add: loop_post_def)
        have ch: "chunks 1000 (discovered ?pages) = batches_of (map snd evs1) @ chunks 1000 rest"
          using chunks_concat_full[of 1000 "batches_of (map snd evs1)" rest] full cat by simp
        from Next r1 Inr ep run have dr: "delete_remaining E b rest w2 = (res, w')"
          by (simp add: empty_s3_bucket_try_def Let_def)
        show ?thesis
        proof (cases "rest = []")
          case True
          with dr have "res = Inr True" "w' = w2" by (simp_all add: delete_remaining_def)
          moreover have "batches_of (map snd ((?tv, ?vev) # evs1))
                           = chunks 1000 (discovered (listed_pages E b w))"
            using ch True pages by (simp add: chunks_Nil)
          moreover have "\<forall>te \<in> set ((?tv, ?vev) # evs1). \<not> late_full (now w) te"
            using ontime by simp
          ultimately show ?thesis using tr1 ops1 by blast
        next
          case False
          let ?dr = "delete_objects E (trace w2) b rest"
          let ?dev = "DeleteObjects b rest (snd ?dr)"
          let ?w3 = "record_call (fst ?dr) ?dev w2"
          let ?evs = "(?tv, ?vev) # evs1 @ [(now w2 + fst ?dr, ?dev)]"
          from False dr have w3: "w' = ?w3"
            by (auto simp: delete_remaining_def Let_def split: sum.splits if_splits)
          have tr: "trace w' = trace w @ ?evs"
            using w3 tr1 by (simp add: trace_record_call)
          have ops: "\<forall>te \<in> set ?evs. operation_of (snd te) \<in> emptying"
            using ops1 by (auto simp: emptying_def)
          have nl: "\<forall>te \<in> set ?evs. \<not> late_full (now w) te"
            using ontime late_full_short[OF short] by simp
          have "batches_of (map snd ?evs) = batches_of (map snd evs1) @ [rest]"
            by (simp add: batches_of_append)
          also have "\<dots> = chunks 1000 (discovered (listed_pages E b w))"
            using ch pages chunks_short[OF False short] by simp
          finally have "batches_of (map snd ?evs) = chunks 1000 (discovered (listed_pages E b w))" .
          with tr ops nl show ?thesis by blast
        qed
      qed
    qed
  qed
qed

lemma concat_chunks: "0 < n \<Longrightarrow> concat (chunks n xs) = xs"
proof (induction n xs rule: chunks.induct)
  case (1 n xs)
  show ?case
  proof (cases "xs = []")
    case True
    then show ?thesis by (simp add: chunks_Nil)
  next
    case False
    with "1.prems" have "concat (chunks n (drop n xs)) = drop n xs"
      by (intro "1.IH") auto
    with False "1.prems" show ?thesis
      by (subst chunks.simps) simp
  qed
qed















lemma follows_prefix: "follows start pl c evs \<Longrightarrow> \<exists>rest. pl = steps_of (map snd evs) @ rest"
  by (cases c) (auto simp: follows_def)


text \<open>The example runs, evaluated.\<close>

lemmas empty_eval =
  empty_s3_bucket_def empty_s3_bucket_try_def delete_remaining_def delete_full_batches.simps
  get_or_empty_def has_errors_def record_call_def seconds_def ticks_per_second_def Let_def
  S3_DELETE_TIMEOUT_SECONDS_def start_world_def demo_env_def


lemma slow_delete_run:
  "empty_s3_bucket slow_delete_env ''site-abc'' (start_world []) =
     (True, \<lparr>now = 402000,
             trace = [(1000, GetBucketVersioning ''site-abc'' (Inr None)),
                      (2000, ListObjectVersions ''site-abc''
                         (Inr \<lparr>Versions = Some [\<lparr>Key = ''index.html'', VersionId = ''null''\<rparr>],
                               DeleteMarkers = None\<rparr>)),
                      (402000, DeleteObjects ''site-abc''
                         [\<lparr>Key = ''index.html'', VersionId = ''null''\<rparr>]
                         (Inr \<lparr>Errors = None\<rparr>))],
             stdin = []\<rparr>)"
  by (simp add: empty_eval slow_delete_env_def)

lemma slow_full_run:
  "empty_s3_bucket slow_full_env ''site-abc'' (start_world []) =
     (False, \<lparr>now = 402000,
             trace = [(1000, GetBucketVersioning ''site-abc'' (Inr None)),
                      (2000, ListObjectVersions ''site-abc''
                         (Inr \<lparr>Versions = Some (replicate 1000 some_key),
                               DeleteMarkers = None\<rparr>)),
                      (402000, DeleteObjects ''site-abc'' (replicate 1000 some_key)
                         (Inr \<lparr>Errors = None\<rparr>))],
             stdin = []\<rparr>)"
  by (simp add: empty_eval slow_full_env_def slow_delete_env_def)



subsection \<open>Teardown of a bucket that is already gone\<close>

text \<open>
  Claim C9. A bucket that does not exist answers the first call made on it with the error
  \<^verbatim>\<open>NoSuchBucket\<close>. Then \<open>empty_s3_bucket\<close> returns \<open>True\<close> after its versioning query,
  and \<open>delete_s3_bucket\<close> returns \<open>True\<close> after its delete call; neither makes another
  call. So the two bucket stages of a repeated teardown report success.
\<close>

theorem absent_bucket_is_success:
  "(snd (get_bucket_versioning E (trace w) b) = Inl (ClientError ''NoSuchBucket'') \<longrightarrow>
      fst (empty_s3_bucket E b w) = True \<and>
      events_since w (snd (empty_s3_bucket E b w)) =
        [GetBucketVersioning b (Inl (ClientError ''NoSuchBucket''))]) \<and>
   (snd (delete_bucket E (trace w) b) = Inl (ClientError ''NoSuchBucket'') \<longrightarrow>
      fst (delete_s3_bucket E b w) = True \<and>
      events_since w (snd (delete_s3_bucket E b w)) =
        [DeleteBucket b (Inl (ClientError ''NoSuchBucket''))])"
  by (simp add: empty_s3_bucket_def empty_s3_bucket_try_def delete_s3_bucket_def Let_def
        events_since_record_call)

theorem absent_bucket_is_success_witness:
  "snd (get_bucket_versioning absent_env (trace (start_world [])) ''site-abc'')
     = Inl (ClientError ''NoSuchBucket'') \<and>
   fst (empty_s3_bucket absent_env ''site-abc'' (start_world [])) = True \<and>
   snd (delete_bucket absent_env (trace (start_world [])) ''site-abc'')
     = Inl (ClientError ''NoSuchBucket'') \<and>
   fst (delete_s3_bucket absent_env ''site-abc'' (start_world [])) = True"
  using absent_bucket_is_success [of absent_env "start_world []" "''site-abc''"]
  by (simp add: absent_env_def demo_env_def start_world_def)

subsection \<open>A distribution that is already disabled\<close>

text \<open>
  Claim C8. When the configuration that \<open>delete_cloudfront_distribution\<close> fetches reports
  \<^verbatim>\<open>Enabled\<close> false, the run makes no update call: its second call is the delete, sent with
  the \<^verbatim>\<open>ETag\<close> of that configuration fetch, and only status checks and sleeps follow.
\<close>

theorem already_disabled_skips_update:
  assumes cfg: "snd (get_distribution_config E (trace w) i) = Inr resp"
    and off: "\<not> Enabled (DistributionConfig resp)"
  shows "\<exists>dr polls. events_since w (snd (delete_cloudfront_distribution E i etag w))
            = GetDistributionConfig i (Inr resp) # DeleteDistribution i (ETag resp) dr # polls
          \<and> (\<forall>e \<in> set polls. operation_of e \<in> {OpGetDistribution, OpSleep})"
proof -
  obtain res w' where run: "delete_cloudfront_distribution E i etag w = (res, w')"
    by (cases "delete_cloudfront_distribution E i etag w") blast
  from delete_cloudfront_distribution_run[OF run] cfg
  obtain evs t0 where evs: "trace w' = trace w @ evs" "cdn_run i res w' evs"
    "hd evs = (t0, GetDistributionConfig i (Inr resp))" by auto
  from evs(2) evs(3) off obtain t1 dr ps where
    shape: "evs = (t0, GetDistributionConfig i (Inr resp))
                  # (t1, DeleteDistribution i (ETag resp) dr) # ps"
    "\<forall>te \<in> set ps. operation_of (snd te) \<in> polling"
    by (cases rule: cdn_run.cases) auto
  have "events_since w w' = GetDistributionConfig i (Inr resp)
          # DeleteDistribution i (ETag resp) dr # map snd ps"
    using evs(1) shape(1) by (simp add: events_since_def)
  moreover have "\<forall>e \<in> set (map snd ps). operation_of e \<in> {OpGetDistribution, OpSleep}"
    using shape(2) by (simp add: polling_def)
  ultimately show ?thesis using run by auto
qed

theorem already_disabled_skips_update_witness:
  "snd (get_distribution_config disabled_env (trace (start_world [])) ''D1'')
     = Inr \<lparr>DistributionConfig = \<lparr>Enabled = False, Origins = Some (Some [site_origin])\<rparr>,
            ETag = ''E7''\<rparr> \<and>
   (\<exists>dr polls.
      events_since (start_world [])
        (snd (delete_cloudfront_distribution disabled_env ''D1'' ''E1'' (start_world [])))
      = GetDistributionConfig ''D1''
          (Inr \<lparr>DistributionConfig = \<lparr>Enabled = False, Origins = Some (Some [site_origin])\<rparr>,
                ETag = ''E7''\<rparr>)
        # DeleteDistribution ''D1'' ''E7'' dr # polls \<and>
      (\<forall>e \<in> set polls. operation_of e \<in> {OpGetDistribution, OpSleep}))"
  using already_disabled_skips_update [of disabled_env "start_world []" "''D1''"
      "\<lparr>DistributionConfig = \<lparr>Enabled = False, Origins = Some (Some [site_origin])\<rparr>,
        ETag = ''E7''\<rparr>" "''E1''"]
  by (simp add: disabled_env_def demo_env_def start_world_def)

subsection \<open>The disable wait that never sees \<^verbatim>\<open>Deployed\<close>\<close>




subsection \<open>Tokens of the mutating CDN calls\<close>

text \<open>
  Claim C3 says that every mutating CDN call sends a token re-read immediately before it,
  and none a token kept across a wait. The delete call does not: in the example run the
  update returns the token \<^verbatim>\<open>E2\<close>, a status check and a sleep of ten seconds follow, and the
  delete call after them sends \<^verbatim>\<open>E2\<close> with no configuration fetch in between.
\<close>

theorem token_reread_counterexample:
  "events_since (start_world [])
     (snd (delete_cloudfront_distribution demo_env ''D1'' ''E1'' (start_world [])))
   = [GetDistributionConfig ''D1''
        (Inr \<lparr>DistributionConfig = \<lparr>Enabled = True, Origins = Some (Some [site_origin])\<rparr>,
              ETag = ''E1''\<rparr>),
      UpdateDistribution \<lparr>Enabled = False, Origins = Some (Some [site_origin])\<rparr>
        ''D1'' ''E1'' (Inr ''E2''),
      GetDistribution ''D1'' (Inr ''InProgress''),
      Sleep 10,
      GetDistribution ''D1'' (Inr ''Deployed''),
      DeleteDistribution ''D1'' ''E2'' (Inr ()),
      GetDistribution ''D1'' (Inl (ClientError ''NoSuchDistribution''))] \<and>
   \<not> reread_before is_cdn_mutation None
       (events_since (start_world [])
          (snd (delete_cloudfront_distribution demo_env ''D1'' ''E1'' (start_world []))))"
  unfolding demo_cdn_run
  by (simp add: events_since_def start_world_def is_cdn_mutation_def)

text \<open>
  Claim C3, amended. In every run of \<open>delete_cloudfront_distribution\<close> the update call
  comes immediately after the configuration fetch, which is the first call of the run, and
  sends the token that fetch returned. The delete call either comes immediately after that
  fetch and sends its token (the distribution was already disabled), or it comes after the
  update and the status checks and sleeps of the disable wait, with no configuration fetch
  in between, and sends the token the update returned, kept across the wait.
\<close>

theorem mutating_calls_token_source:
  assumes run: "delete_cloudfront_distribution E i etag w = (res, w')"
  shows "(\<forall>pre c j m r post.
            events_since w w' = pre @ UpdateDistribution c j m r # post \<longrightarrow>
            j = i \<and> (\<exists>resp. pre = [GetDistributionConfig i (Inr resp)] \<and> m = ETag resp)) \<and>
         (\<forall>pre j m r post.
            events_since w w' = pre @ DeleteDistribution j m r # post \<longrightarrow>
            j = i \<and>
            ((\<exists>resp. pre = [GetDistributionConfig i (Inr resp)] \<and> m = ETag resp) \<or>
             (\<exists>resp c tok ps.
                pre = GetDistributionConfig i (Inr resp)
                      # UpdateDistribution c i (ETag resp) (Inr tok) # ps \<and>
                ps \<noteq> [] \<and> (\<forall>e \<in> set ps. operation_of e \<in> polling) \<and> m = tok)))"
proof -
  from delete_cloudfront_distribution_run[OF run]
  obtain evs where evs: "trace w' = trace w @ evs" "cdn_run i res w' evs" by blast
  have es: "events_since w w' = map snd evs"
    using evs(1) by (simp add: events_since_def)
  have upd: "j = i \<and> (\<exists>resp. pre = [GetDistributionConfig i (Inr resp)] \<and> m = ETag resp)"
    if eq: "map snd evs = pre @ UpdateDistribution c j m r # post" for pre c j m r post
    using evs(2)
  proof (cases rule: cdn_run.cases)
    case (fetch_failed e t0)
    with eq show ?thesis by (auto simp: Cons_eq_append_conv)
  next
    case (already_disabled resp ps t0 t1 dr)
    from already_disabled(3) have "\<forall>e \<in> set (map snd ps). \<not> is_update e"
      using polling_not_mutation by blast
    then have "\<And>pre' post'. map snd ps \<noteq> pre' @ UpdateDistribution c j m r # post'"
      by (rule not_in_split) (simp add: is_update_def)
    with eq already_disabled(1) show ?thesis
      by (auto simp: Cons_eq_append_conv)
  next
    case (update_failed resp e t0 t1)
    with eq show ?thesis by (auto simp: Cons_eq_append_conv)
  next
    case (disable_wait_failed resp ps t1 t0 tok)
    from disable_wait_failed(3) have "\<forall>e \<in> set (map snd ps). \<not> is_update e"
      using polling_not_mutation by blast
    then have "\<And>pre' post'. map snd ps \<noteq> pre' @ UpdateDistribution c j m r # post'"
      by (rule not_in_split) (simp add: is_update_def)
    with eq disable_wait_failed(1) show ?thesis
      by (auto simp: Cons_eq_append_conv)
  next
    case (disabled_then_deleted resp ps t ps' t0 t1 tok t2 dr)
    from disabled_then_deleted(3,5)
    have "\<forall>e \<in> set (map snd ps @ DeleteDistribution i tok dr # map snd ps'). \<not> is_update e"
      using polling_not_mutation[of ps] polling_not_mutation[of ps']
      by (auto simp: is_update_def)
    then have "\<And>pre' post'. map snd ps @ DeleteDistribution i tok dr # map snd ps'
                 \<noteq> pre' @ UpdateDistribution c j m r # post'"
      by (rule not_in_split) (simp add: is_update_def)
    with eq disabled_then_deleted(1) show ?thesis
      by (auto simp: Cons_eq_append_conv)
  qed
  have del: "j = i \<and>
            ((\<exists>resp. pre = [GetDistributionConfig i (Inr resp)] \<and> m = ETag resp) \<or>
             (\<exists>resp c tok ps.
                pre = GetDistributionConfig i (Inr resp)
                      # UpdateDistribution c i (ETag resp) (Inr tok) # ps \<and>
                ps \<noteq> [] \<and> (\<forall>e \<in> set ps. operation_of e \<in> polling) \<and> m = tok))"
    if eq: "map snd evs = pre @ DeleteDistribution j m r # post" for pre j m r post
    using evs(2)
  proof (cases rule: cdn_run.cases)
    case (fetch_failed e t0)
    with eq show ?thesis by (auto simp: Cons_eq_append_conv)
  next
    case (already_disabled resp ps t0 t1 dr)
    from already_disabled(3) have "\<forall>e \<in> set (map snd ps). \<not> is_delete e"
      using polling_not_mutation by blast
    then have "\<And>pre' post'. map snd ps \<noteq> pre' @ DeleteDistribution j m r # post'"
      by (rule not_in_split) (simp add: is_delete_def)
    with eq already_disabled(1) show ?thesis
      by (auto simp: Cons_eq_append_conv)
  next
    case (update_failed resp e t0 t1)
    with eq show ?thesis by (auto simp: Cons_eq_append_conv)
  next
    case (disable_wait_failed resp ps t1 t0 tok)
    from disable_wait_failed(3) have "\<forall>e \<in> set (map snd ps). \<not> is_delete e"
      using polling_not_mutation by blast
    then have "\<And>pre' post'. map snd ps \<noteq> pre' @ DeleteDistribution j m r # post'"
      by (rule not_in_split) (simp add: is_delete_def)
    with eq disable_wait_failed(1) show ?thesis
      by (auto simp: Cons_eq_append_conv)
  next
    case (disabled_then_deleted resp ps t ps' t0 t1 tok t2 dr)
    let ?G = "GetDistributionConfig i (Inr resp)"
    let ?U = "UpdateDistribution ((DistributionConfig resp)\<lparr>Enabled := False\<rparr>) i (ETag resp) (Inr tok)"
    from disabled_then_deleted(3,5)
    have np: "\<forall>e \<in> set (map snd ps). \<not> is_delete e" "\<forall>e \<in> set (map snd ps'). \<not> is_delete e"
      using polling_not_mutation[of ps] polling_not_mutation[of ps'] by blast+
    from eq disabled_then_deleted(1)
    have eq': "(?G # ?U # map snd ps) @ DeleteDistribution i tok dr # map snd ps'
                 = pre @ DeleteDistribution j m r # post" by simp
    have "pre = ?G # ?U # map snd ps \<and> DeleteDistribution j m r = DeleteDistribution i tok dr
          \<and> post = map snd ps'"
      using eq' np by (intro split_unique[where Q = is_delete]) (auto simp: is_delete_def)
    moreover have "map snd ps \<noteq> []" using disabled_then_deleted(4) by auto
    moreover have "\<forall>e \<in> set (map snd ps). operation_of e \<in> polling"
      using disabled_then_deleted(3) by simp
    ultimately show ?thesis by blast
  qed
  show ?thesis unfolding es using upd del by blast
qed

theorem mutating_calls_token_source_witness:
  "events_since (start_world [])
     (snd (delete_cloudfront_distribution demo_env ''D1'' ''E1'' (start_world [])))
   = [GetDistributionConfig ''D1'' (Inr demo_config)]
     @ UpdateDistribution \<lparr>Enabled = False, Origins = Some (Some [site_origin])\<rparr>
         ''D1'' ''E1'' (Inr ''E2'')
     # [GetDistribution ''D1'' (Inr ''InProgress''), Sleep 10,
        GetDistribution ''D1'' (Inr ''Deployed''),
        DeleteDistribution ''D1'' ''E2'' (Inr ()),
        GetDistribution ''D1'' (Inl (ClientError ''NoSuchDistribution''))] \<and>
   events_since (start_world [])
     (snd (delete_cloudfront_distribution demo_env ''D1'' ''E1'' (start_world [])))
   = [GetDistributionConfig ''D1'' (Inr demo_config),
      UpdateDistribution \<lparr>Enabled = False, Origins = Some (Some [site_origin])\<rparr>
         ''D1'' ''E1'' (Inr ''E2''),
      GetDistribution ''D1'' (Inr ''InProgress''), Sleep 10,
      GetDistribution ''D1'' (Inr ''Deployed'')]
     @ DeleteDistribution ''D1'' ''E2'' (Inr ())
     # [GetDistribution ''D1'' (Inl (ClientError ''NoSuchDistribution''))] \<and>
   (\<exists>resp. [GetDistributionConfig ''D1'' (Inr demo_config)]
             = [GetDistributionConfig ''D1'' (Inr resp)] \<and> ''E1'' = ETag resp) \<and>
   (\<exists>resp c tok ps.
       [GetDistributionConfig ''D1'' (Inr demo_config),
        UpdateDistribution \<lparr>Enabled = False, Origins = Some (Some [site_origin])\<rparr>
          ''D1'' ''E1'' (Inr ''E2''),
        GetDistribution ''D1'' (Inr ''InProgress''), Sleep 10,
        GetDistribution ''D1'' (Inr ''Deployed'')]
       = GetDistributionConfig ''D1'' (Inr resp)
         # UpdateDistribution c ''D1'' (ETag resp) (Inr tok) # ps \<and>
       ps \<noteq> [] \<and> (\<forall>e \<in> set ps. operation_of e \<in> polling) \<and> ''E2'' = tok)"
proof -
  let ?w' = "snd (delete_cloudfront_distribution demo_env ''D1'' ''E1'' (start_world []))"
  let ?G = "GetDistributionConfig ''D1'' (Inr demo_config)"
  let ?U = "UpdateDistribution \<lparr>Enabled = False, Origins = Some (Some [site_origin])\<rparr>
              ''D1'' ''E1'' (Inr ''E2'')"
  let ?P1 = "GetDistribution ''D1'' (Inr ''InProgress'')"
  let ?P2 = "GetDistribution ''D1'' (Inr ''Deployed'')"
  let ?D = "DeleteDistribution ''D1'' ''E2'' (Inr ())"
  let ?P3 = "GetDistribution ''D1'' (Inl (ClientError ''NoSuchDistribution''))"
  have run: "delete_cloudfront_distribution demo_env ''D1'' ''E1'' (start_world []) = (True, ?w')"
    unfolding demo_cdn_run by simp
  have ev: "events_since (start_world []) ?w' = [?G, ?U, ?P1, Sleep 10, ?P2, ?D, ?P3]"
    unfolding demo_cdn_run by (simp add: events_since_def start_world_def demo_config_def)
  note t = mutating_calls_token_source [OF run]
  have u: "events_since (start_world []) ?w' = [?G] @ ?U # [?P1, Sleep 10, ?P2, ?D, ?P3]"
    using ev by simp
  have d: "events_since (start_world []) ?w' = [?G, ?U, ?P1, Sleep 10, ?P2] @ ?D # [?P3]"
    using ev by simp
  from t[THEN conjunct1, rule_format, OF u]
  have a: "\<exists>resp. [?G] = [GetDistributionConfig ''D1'' (Inr resp)] \<and> ''E1'' = ETag resp"
    by blast
  from t[THEN conjunct2, rule_format, OF d]
  have b: "\<exists>resp c tok ps.
       [?G, ?U, ?P1, Sleep 10, ?P2]
       = GetDistributionConfig ''D1'' (Inr resp)
         # UpdateDistribution c ''D1'' (ETag resp) (Inr tok) # ps \<and>
       ps \<noteq> [] \<and> (\<forall>e \<in> set ps. operation_of e \<in> polling) \<and> ''E2'' = tok"
    by auto
  from u d a b show ?thesis by blast
qed

subsection \<open>Two or more matching distributions\<close>




subsection \<open>Batches of the bucket emptier\<close>




subsection \<open>The time budget of the bucket emptier\<close>

text \<open>
  Claim C6 says that the emptier fails whenever more than 300 seconds have passed since
  its start at any point across its batches. The clock is read only after a full batch
  of 1000: a bucket with one entry whose bulk delete takes 400 seconds is emptied with
  result \<open>True\<close>.
\<close>

theorem budget_exceeded_counterexample:
  "fst (empty_s3_bucket slow_delete_env ''site-abc'' (start_world [])) = True \<and>
   int (now (snd (empty_s3_bucket slow_delete_env ''site-abc'' (start_world []))))
     - int (now (start_world [])) > int (seconds S3_DELETE_TIMEOUT_SECONDS) \<and>
   batches_of (events_since (start_world [])
      (snd (empty_s3_bucket slow_delete_env ''site-abc'' (start_world []))))
     = [[\<lparr>Key = ''index.html'', VersionId = ''null''\<rparr>]]"
  unfolding slow_delete_run
  by (simp add: events_since_def start_world_def seconds_def ticks_per_second_def
      S3_DELETE_TIMEOUT_SECONDS_def)

text \<open>
  Claim C6, amended. In every run of \<open>empty_s3_bucket\<close>, if a bulk delete of a full batch
  of 1000 keys returns more than \<open>S3_DELETE_TIMEOUT_SECONDS\<close> (300 seconds) after the start,
  the result is \<open>False\<close>, whatever had been deleted before. The budget is checked nowhere
  else: not during the enumeration and not after the final batch.
\<close>

theorem late_full_batch_fails:
  assumes run: "empty_s3_bucket E b w = (res, w')"
    and late: "(t, DeleteObjects b' batch (Inr resp)) \<in> set (timed_events_since w w')"
    and full: "length batch = 1000"
    and over: "int t - int (now w) > int (seconds S3_DELETE_TIMEOUT_SECONDS)"
  shows "\<not> res"
proof -
  obtain r w1 where tr: "empty_s3_bucket_try E b w = (r, w1)"
    by (cases "empty_s3_bucket_try E b w") blast
  with run have w': "w' = w1"
    by (auto simp: empty_s3_bucket_def split: sum.splits)
  from empty_s3_bucket_try_run[OF tr] obtain evs where
    evs: "trace w1 = trace w @ evs"
    "(\<exists>te \<in> set evs. late_full (now w) te) \<longrightarrow> r = Inr False" by blast
  have "timed_events_since w w' = evs" using evs(1) w' by (simp add: timed_events_since_def)
  with late have "(t, DeleteObjects b' batch (Inr resp)) \<in> set evs" by simp
  moreover have "late_full (now w) (t, DeleteObjects b' batch (Inr resp))"
    using full over by simp
  ultimately have "r = Inr False" using evs(2) by blast
  with tr run show ?thesis by (simp add: empty_s3_bucket_def)
qed

theorem late_full_batch_fails_witness:
  "length (replicate 1000 some_key) = 1000 \<and>
   int 402000 - int (now (start_world [])) > int (seconds S3_DELETE_TIMEOUT_SECONDS) \<and>
   fst (empty_s3_bucket slow_full_env ''site-abc'' (start_world [])) = False"
  using late_full_batch_fails [OF slow_full_run,
      of 402000 "''site-abc''" "replicate 1000 some_key" "\<lparr>Errors = None\<rparr>"]
  unfolding slow_full_run
  by (simp add: timed_events_since_def start_world_def seconds_def ticks_per_second_def
      S3_DELETE_TIMEOUT_SECONDS_def)

end
